theory Spec2Isabelle
  imports Complex_Main "HOL-Library.Word"
begin

unbundle bit_operations_syntax

section \<open>Data model\<close>

text \<open>
  A \<^verbatim>\<open>Uint8Array\<close> is a list of 8-bit words, an \<^verbatim>\<open>Int16Array\<close> a list of 16-bit
  words read as two's complement, and a JavaScript string a list of UTF-16 code units.
  Audio samples (\<^verbatim>\<open>Float32Array\<close> elements) are modelled as real numbers: every
  arithmetic step the program performs on them (multiplication and division by 32768,
  multiplication by 32767, truncation, comparison with -1, 0 and 1) is exact on finite
  floating-point values, so the real-number model computes the same results. NaN and the
  infinities are outside the model.
\<close>

type_synonym byte = "8 word"
type_synonym int16 = "16 word"
type_synonym char16 = "16 word"
type_synonym jsstring = "char16 list"

datatype error =
    InvalidCharacterError
  | RangeError
  | NotSupportedError
  | IndexSizeError
  | Error string
  | RemoteError nat

text \<open>String literals of the source, as code units.\<close>

definition js :: "string \<Rightarrow> jsstring" where
  "js s = map of_char s"

section \<open>Platform functions: \<^verbatim>\<open>btoa\<close> and \<^verbatim>\<open>atob\<close>\<close>

text \<open>
  \<^verbatim>\<open>btoa\<close> and \<^verbatim>\<open>atob\<close> are supplied by the browser. They are modelled after the
  HTML standard: \<^verbatim>\<open>btoa\<close> throws on a code unit above 255 and otherwise emits the RFC 4648
  encoding with padding; \<^verbatim>\<open>atob\<close> is the forgiving base64 decoder (strip ASCII
  whitespace, drop one or two trailing \<^verbatim>\<open>=\<close> when the length is a multiple of four, fail on
  a length of 1 modulo 4 or on a character outside the alphabet, and discard the spare bits
  of a trailing group).
\<close>

definition base64_code :: "nat \<Rightarrow> nat" where
  "base64_code n =
     (if n < 26 then 65 + n
      else if n < 52 then 71 + n
      else if n < 62 then n - 4
      else if n = 62 then 43
      else 47)"

definition base64_char :: "nat \<Rightarrow> char16" where
  "base64_char n = of_nat (base64_code n)"

definition base64_index :: "nat \<Rightarrow> nat option" where
  "base64_index u =
     (if 65 \<le> u \<and> u \<le> 90 then Some (u - 65)
      else if 97 \<le> u \<and> u \<le> 122 then Some (u - 71)
      else if 48 \<le> u \<and> u \<le> 57 then Some (u + 4)
      else if u = 43 then Some 62
      else if u = 47 then Some 63
      else None)"

definition base64_value :: "char16 \<Rightarrow> nat option" where
  "base64_value c = base64_index (unat c)"

text \<open>
  Three bytes become four sextets; a trailing group of one or two bytes becomes two or
  three sextets, its spare low bits zero. Decoding takes four sextets back to three bytes
  and drops the spare bits of a trailing group of two or three sextets.
\<close>

fun encode_sextets :: "nat list \<Rightarrow> nat list" where
  "encode_sextets [] = []"
| "encode_sextets [a] = [a div 4, a mod 4 * 16]"
| "encode_sextets [a, b] = [a div 4, a mod 4 * 16 + b div 16, b mod 16 * 4]"
| "encode_sextets (a # b # c # rest) =
     [a div 4, a mod 4 * 16 + b div 16, b mod 16 * 4 + c div 64, c mod 64]
     @ encode_sextets rest"

fun decode_sextets :: "nat list \<Rightarrow> nat list" where
  "decode_sextets (s1 # s2 # s3 # s4 # rest) =
     [s1 * 4 + s2 div 16, s2 mod 16 * 16 + s3 div 4, s3 mod 4 * 64 + s4]
     @ decode_sextets rest"
| "decode_sextets [s1, s2, s3] = [s1 * 4 + s2 div 16, s2 mod 16 * 16 + s3 div 4]"
| "decode_sextets [s1, s2] = [s1 * 4 + s2 div 16]"
| "decode_sextets _ = []"

definition btoa :: "jsstring \<Rightarrow> error + jsstring" where
  "btoa s =
     (if \<exists>c \<in> set s. 255 < unat c then Inl InvalidCharacterError
      else Inr (map base64_char (encode_sextets (map unat s))
                @ replicate ((3 - length s mod 3) mod 3) 61))"

definition is_ascii_whitespace :: "char16 \<Rightarrow> bool" where
  "is_ascii_whitespace c \<longleftrightarrow> c = 9 \<or> c = 10 \<or> c = 12 \<or> c = 13 \<or> c = 32"

definition strip_padding :: "jsstring \<Rightarrow> jsstring" where
  "strip_padding d =
     (if length d mod 4 = 0 \<and> d \<noteq> [] \<and> last d = 61
      then (let d1 = butlast d in if d1 \<noteq> [] \<and> last d1 = 61 then butlast d1 else d1)
      else d)"

definition atob :: "jsstring \<Rightarrow> error + jsstring" where
  "atob s =
     (let d = strip_padding (filter (\<lambda>c. \<not> is_ascii_whitespace c) s) in
      if length d mod 4 = 1 then Inl InvalidCharacterError
      else if \<exists>c \<in> set d. base64_value c = None then Inl InvalidCharacterError
      else Inr (map of_nat (decode_sextets (map (\<lambda>c. the (base64_value c)) d))))"

section \<open>PCM codec (\<^verbatim>\<open>utils/audioUtils.ts\<close>)\<close>

text \<open>
  \<^verbatim>\<open>decode\<close>: \<^verbatim>\<open>atob\<close>, then each code unit is stored into a \<^verbatim>\<open>Uint8Array\<close>
  (the store keeps the low eight bits).
\<close>

definition decode :: "jsstring \<Rightarrow> error + byte list" where
  "decode base64 =
     (case atob base64 of
        Inl e \<Rightarrow> Inl e
      | Inr binaryString \<Rightarrow> Inr (map ucast binaryString))"

text \<open>\<^verbatim>\<open>encode\<close>: \<^verbatim>\<open>String.fromCharCode\<close> of every byte, then \<^verbatim>\<open>btoa\<close>.\<close>

definition encode :: "byte list \<Rightarrow> error + jsstring" where
  "encode bytes = btoa (map ucast bytes)"

text \<open>
  An \<^verbatim>\<open>AudioBuffer\<close>: sample rate, channel count, length in sample frames, and one
  sample array per channel. \<^verbatim>\<open>length\<close> is called \<open>length_buf\<close> here.
\<close>

record audio_buffer =
  sampleRate :: nat
  numberOfChannels :: nat
  length_buf :: nat
  channelData :: "real list list"

definition duration :: "audio_buffer \<Rightarrow> real" where
  "duration b = real (length_buf b) / real (sampleRate b)"

text \<open>
  \<^verbatim>\<open>ctx.createBuffer\<close> (Web Audio): a zero channel count, length or sample rate is a
  \<^verbatim>\<open>NotSupportedError\<close>; the buffer starts silent. The upper limits on the three
  arguments are chosen by the browser and are not modelled.
\<close>

definition createBuffer :: "nat \<Rightarrow> nat \<Rightarrow> nat \<Rightarrow> error + audio_buffer" where
  "createBuffer channels len rate =
     (if channels = 0 \<or> len = 0 \<or> rate = 0 then Inl NotSupportedError
      else Inr \<lparr>sampleRate = rate, numberOfChannels = channels, length_buf = len,
                channelData = replicate channels (replicate len 0)\<rparr>)"

text \<open>
  Typed-array views of one \<^verbatim>\<open>ArrayBuffer\<close>, little-endian. \<^verbatim>\<open>new Int16Array(buffer)\<close>
  throws a \<^verbatim>\<open>RangeError\<close> when the byte length is odd.
\<close>

fun int16_of_bytes :: "byte list \<Rightarrow> int16 list" where
  "int16_of_bytes (lo # hi # rest) = (ucast lo OR push_bit 8 (ucast hi)) # int16_of_bytes rest"
| "int16_of_bytes _ = []"

definition Int16Array_of_buffer :: "byte list \<Rightarrow> error + int16 list" where
  "Int16Array_of_buffer bytes =
     (if length bytes mod 2 \<noteq> 0 then Inl RangeError else Inr (int16_of_bytes bytes))"

definition bytes_of_int16 :: "int16 \<Rightarrow> byte list" where
  "bytes_of_int16 w = [ucast w, ucast (drop_bit 8 w)]"

definition Uint8Array_of_int16_buffer :: "int16 list \<Rightarrow> byte list" where
  "Uint8Array_of_int16_buffer ws = concat (map bytes_of_int16 ws)"

text \<open>
  Storing a number into an \<^verbatim>\<open>Int16Array\<close> element or through \<^verbatim>\<open>DataView.setInt16\<close>
  applies \<^verbatim>\<open>ToInt16\<close>: truncate towards zero, then wrap modulo \<open>2^16\<close>.
\<close>

definition js_trunc :: "real \<Rightarrow> int" where
  "js_trunc x = (if x < 0 then \<lceil>x\<rceil> else \<lfloor>x\<rfloor>)"

definition ToInt16 :: "real \<Rightarrow> int16" where
  "ToInt16 x = word_of_int (js_trunc x)"

text \<open>
  \<^verbatim>\<open>decodeAudioData\<close>. \<^verbatim>\<open>frameCount\<close> is the quotient \<^verbatim>\<open>dataInt16.length / numChannels\<close>;
  \<^verbatim>\<open>createBuffer\<close> truncates it to an integer, and the stores the loop makes past the end
  of a channel array are dropped, so each channel holds \<open>length div numChannels\<close>
  samples.
\<close>

definition decodeAudioData :: "byte list \<Rightarrow> nat \<Rightarrow> nat \<Rightarrow> error + audio_buffer" where
  "decodeAudioData data rate numChannels =
     (case Int16Array_of_buffer data of
        Inl e \<Rightarrow> Inl e
      | Inr dataInt16 \<Rightarrow>
          (let frameCount = length dataInt16 div numChannels in
           case createBuffer numChannels frameCount rate of
             Inl e \<Rightarrow> Inl e
           | Inr buffer \<Rightarrow>
               Inr (buffer\<lparr>channelData :=
                 map (\<lambda>channel.
                   map (\<lambda>i. real_of_int (sint (dataInt16 ! (i * numChannels + channel))) / 32768)
                     [0..<frameCount])
                   [0..<numChannels]\<rparr>)))"

text \<open>\<^verbatim>\<open>createPcmBlob\<close>: every sample times 32768, stored into an \<^verbatim>\<open>Int16Array\<close>.\<close>

record pcm_blob =
  data :: jsstring
  mimeType :: jsstring

definition createPcmBlob :: "real list \<Rightarrow> error + pcm_blob" where
  "createPcmBlob samples =
     (let int16 = map (\<lambda>x. ToInt16 (x * 32768)) samples in
      case encode (Uint8Array_of_int16_buffer int16) of
        Inl e \<Rightarrow> Inl e
      | Inr s \<Rightarrow> Inr \<lparr>data = s, mimeType = js ''audio/pcm;rate=16000''\<rparr>)"

text \<open>
  The round trip of the live path's two ends: \<^verbatim>\<open>createPcmBlob\<close>, then \<^verbatim>\<open>decode\<close> of the
  payload, then \<^verbatim>\<open>decodeAudioData\<close> with one channel.
\<close>

definition pcm_roundtrip :: "real list \<Rightarrow> nat \<Rightarrow> error + audio_buffer" where
  "pcm_roundtrip samples rate =
     (case createPcmBlob samples of
        Inl e \<Rightarrow> Inl e
      | Inr blob \<Rightarrow>
          (case decode (data blob) of
             Inl e \<Rightarrow> Inl e
           | Inr bytes \<Rightarrow> decodeAudioData bytes rate 1))"

section \<open>WAV serialisation (\<^verbatim>\<open>audioBufferToWavBlob\<close>)\<close>

text \<open>
  A \<^verbatim>\<open>DataView\<close> store of consecutive bytes at a byte offset; a store that does not fit
  the view throws a \<^verbatim>\<open>RangeError\<close>. \<^verbatim>\<open>setUint8\<close> keeps the low eight bits of its
  argument, \<^verbatim>\<open>setUint16\<close> and \<^verbatim>\<open>setUint32\<close> (little-endian) the low 16 and 32 bits.
\<close>

definition dv_store :: "byte list \<Rightarrow> nat \<Rightarrow> byte list \<Rightarrow> error + byte list" where
  "dv_store view byteOffset bs =
     (if length view < byteOffset + length bs then Inl RangeError
      else Inr (take byteOffset view @ bs @ drop (byteOffset + length bs) view))"

definition setUint8 :: "byte list \<Rightarrow> nat \<Rightarrow> char16 \<Rightarrow> error + byte list" where
  "setUint8 view byteOffset v = dv_store view byteOffset [ucast v]"

definition le16 :: "nat \<Rightarrow> byte list" where
  "le16 v = (let w = of_nat v :: 16 word in [ucast w, ucast (drop_bit 8 w)])"

definition le32 :: "nat \<Rightarrow> byte list" where
  "le32 v =
     (let w = of_nat v :: 32 word
      in [ucast w, ucast (drop_bit 8 w), ucast (drop_bit 16 w), ucast (drop_bit 24 w)])"

definition setUint16 :: "byte list \<Rightarrow> nat \<Rightarrow> nat \<Rightarrow> error + byte list" where
  "setUint16 view byteOffset v = dv_store view byteOffset (le16 v)"

definition setUint32 :: "byte list \<Rightarrow> nat \<Rightarrow> nat \<Rightarrow> error + byte list" where
  "setUint32 view byteOffset v = dv_store view byteOffset (le32 v)"

definition setInt16 :: "byte list \<Rightarrow> nat \<Rightarrow> real \<Rightarrow> error + byte list" where
  "setInt16 view byteOffset s = dv_store view byteOffset (bytes_of_int16 (ToInt16 s))"

text \<open>
  The function's local state is the view and the running \<^verbatim>\<open>offset\<close>; its three inner
  functions store at \<^verbatim>\<open>offset\<close> and advance it.
\<close>

type_synonym wav_writer = "byte list \<times> nat"

fun set_chars :: "byte list \<Rightarrow> nat \<Rightarrow> jsstring \<Rightarrow> error + byte list" where
  "set_chars view pos [] = Inr view"
| "set_chars view pos (c # cs) =
     (case setUint8 view pos c of
        Inl e \<Rightarrow> Inl e
      | Inr view' \<Rightarrow> set_chars view' (pos + 1) cs)"

definition writeString :: "jsstring \<Rightarrow> wav_writer \<Rightarrow> error + wav_writer" where
  "writeString s w =
     (case set_chars (fst w) (snd w) s of
        Inl e \<Rightarrow> Inl e
      | Inr view \<Rightarrow> Inr (view, snd w + length s))"

definition writeUint32 :: "nat \<Rightarrow> wav_writer \<Rightarrow> error + wav_writer" where
  "writeUint32 i w =
     (case setUint32 (fst w) (snd w) i of
        Inl e \<Rightarrow> Inl e
      | Inr view \<Rightarrow> Inr (view, snd w + 4))"

definition writeUint16 :: "nat \<Rightarrow> wav_writer \<Rightarrow> error + wav_writer" where
  "writeUint16 i w =
     (case setUint16 (fst w) (snd w) i of
        Inl e \<Rightarrow> Inl e
      | Inr view \<Rightarrow> Inr (view, snd w + 2))"

text \<open>The body of the last loop: clamp, scale, store as a signed 16-bit sample.\<close>

definition scale_sample :: "real \<Rightarrow> real" where
  "scale_sample x =
     (let s = max (- 1) (min 1 x) in if s < 0 then s * 32768 else s * 32767)"

definition writeSample :: "real \<Rightarrow> wav_writer \<Rightarrow> error + wav_writer" where
  "writeSample x w =
     (case setInt16 (fst w) (snd w) (scale_sample x) of
        Inl e \<Rightarrow> Inl e
      | Inr view \<Rightarrow> Inr (view, snd w + 2))"

fun write_all :: "(wav_writer \<Rightarrow> error + wav_writer) list \<Rightarrow> wav_writer \<Rightarrow> error + wav_writer"
where
  "write_all [] w = Inr w"
| "write_all (f # fs) w = (case f w of Inl e \<Rightarrow> Inl e | Inr w' \<Rightarrow> write_all fs w')"

text \<open>
  The interleaving loops: channel by channel, sample \<open>i\<close> of channel \<open>c\<close> goes to index
  \<open>i * numOfChan + c\<close> of a zero-filled \<^verbatim>\<open>Float32Array\<close>.
\<close>

definition interleave :: "audio_buffer \<Rightarrow> real list" where
  "interleave b =
     fold (\<lambda>channel acc.
             fold (\<lambda>i acc'. acc'[i * numberOfChannels b + channel := channelData b ! channel ! i])
               [0..<length_buf b] acc)
       [0..<numberOfChannels b]
       (replicate (length_buf b * numberOfChannels b) 0)"

definition audioBufferToWavBlob :: "audio_buffer \<Rightarrow> error + byte list" where
  "audioBufferToWavBlob audioBuffer =
     (let numOfChan = numberOfChannels audioBuffer;
          totalLength = length_buf audioBuffer * numOfChan * 2 + 44
      in case write_all
           ([writeString (js ''RIFF''),
             writeUint32 (totalLength - 8),
             writeString (js ''WAVE''),
             writeString (js ''fmt ''),
             writeUint32 16,
             writeUint16 1,
             writeUint16 numOfChan,
             writeUint32 (sampleRate audioBuffer),
             writeUint32 (sampleRate audioBuffer * numOfChan * 2),
             writeUint16 (numOfChan * 2),
             writeUint16 16,
             writeString (js ''data''),
             writeUint32 (length_buf audioBuffer * numOfChan * 2)]
            @ map writeSample (interleave audioBuffer))
           (replicate totalLength 0, 0)
         of Inl e \<Rightarrow> Inl e
          | Inr w \<Rightarrow> Inr (fst w))"

text \<open>
  What an \<^verbatim>\<open>AudioBuffer\<close> object guarantees: at least one channel and one frame, and
  every channel array as long as the buffer.
\<close>

definition wf_buffer :: "audio_buffer \<Rightarrow> bool" where
  "wf_buffer b \<longleftrightarrow>
     0 < numberOfChannels b \<and> 0 < length_buf b \<and> 0 < sampleRate b \<and>
     length (channelData b) = numberOfChannels b \<and>
     list_all (\<lambda>ch. length ch = length_buf b) (channelData b)"

text \<open>Reading a WAV header field or a sample back from the bytes, little-endian.\<close>

definition u16_at :: "byte list \<Rightarrow> nat \<Rightarrow> nat" where
  "u16_at bs k = unat (ucast (bs ! k) OR push_bit 8 (ucast (bs ! (k + 1))) :: 16 word)"

definition u32_at :: "byte list \<Rightarrow> nat \<Rightarrow> nat" where
  "u32_at bs k =
     unat (ucast (bs ! k) OR push_bit 8 (ucast (bs ! (k + 1)))
           OR push_bit 16 (ucast (bs ! (k + 2))) OR push_bit 24 (ucast (bs ! (k + 3)))
           :: 32 word)"

definition s16_at :: "byte list \<Rightarrow> nat \<Rightarrow> int" where
  "s16_at bs k = sint (ucast (bs ! k) OR push_bit 8 (ucast (bs ! (k + 1))) :: int16)"

text \<open>
  A writer \<open>f\<close> emits the bytes \<open>bs\<close> when, wherever they fit, it stores them at the
  offset and advances the offset past them.
\<close>

definition emits :: "(wav_writer \<Rightarrow> error + wav_writer) \<Rightarrow> byte list \<Rightarrow> bool" where
  "emits f bs \<longleftrightarrow>
     (\<forall>view off. off + length bs \<le> length view \<longrightarrow>
        f (view, off) = Inr (take off view @ bs @ drop (off + length bs) view, off + length bs))"

section \<open>Combiner (\<^verbatim>\<open>handleDownloadCombined\<close>)\<close>

record generated_audio_chunk =
  chunk_id :: jsstring
  chunk_text :: jsstring
  audioBuffer :: audio_buffer

text \<open>
  \<^verbatim>\<open>getChannelData\<close> throws an \<^verbatim>\<open>IndexSizeError\<close> for a channel the buffer does not have;
  \<^verbatim>\<open>TypedArray.set(source, offset)\<close> throws a \<^verbatim>\<open>RangeError\<close> when the source does not fit.
\<close>

definition getChannelData :: "audio_buffer \<Rightarrow> nat \<Rightarrow> error + real list" where
  "getChannelData b channel =
     (if channel < numberOfChannels b then Inr (channelData b ! channel) else Inl IndexSizeError)"

definition typed_array_set :: "real list \<Rightarrow> real list \<Rightarrow> nat \<Rightarrow> error + real list" where
  "typed_array_set target source off =
     (if length target < off + length source then Inl RangeError
      else Inr (take off target @ source @ drop (off + length source) target))"

text \<open>The inner loop: every channel of \<open>buffer\<close> is copied into the target at \<open>offset\<close>.\<close>

fun copy_channels :: "audio_buffer \<Rightarrow> nat \<Rightarrow> nat list \<Rightarrow> audio_buffer \<Rightarrow> error + audio_buffer"
where
  "copy_channels buffer offset [] concatenatedBuffer = Inr concatenatedBuffer"
| "copy_channels buffer offset (channel # rest) concatenatedBuffer =
     (case getChannelData concatenatedBuffer channel of
        Inl e \<Rightarrow> Inl e
      | Inr dst \<Rightarrow>
          (case getChannelData buffer channel of
             Inl e \<Rightarrow> Inl e
           | Inr src \<Rightarrow>
               (case typed_array_set dst src offset of
                  Inl e \<Rightarrow> Inl e
                | Inr dst' \<Rightarrow>
                    copy_channels buffer offset rest
                      (concatenatedBuffer\<lparr>channelData :=
                         (channelData concatenatedBuffer)[channel := dst']\<rparr>))))"

text \<open>The outer loop over \<^verbatim>\<open>tempBuffers\<close>, with the running \<^verbatim>\<open>offset\<close>.\<close>

fun concat_loop :: "audio_buffer list \<Rightarrow> nat \<Rightarrow> audio_buffer \<Rightarrow> error + audio_buffer" where
  "concat_loop [] offset concatenatedBuffer = Inr concatenatedBuffer"
| "concat_loop (buffer # rest) offset concatenatedBuffer =
     (case copy_channels buffer offset [0..<numberOfChannels buffer] concatenatedBuffer of
        Inl e \<Rightarrow> Inl e
      | Inr t \<Rightarrow> concat_loop rest (offset + length_buf buffer) t)"

text \<open>
  \<^verbatim>\<open>combinedBuffer\<close> as the \<^verbatim>\<open>try\<close> block computes it for a non-empty chunk list: the
  first chunk's buffer itself when there is one chunk, the concatenation otherwise.
\<close>

definition combinedBuffer :: "generated_audio_chunk list \<Rightarrow> error + audio_buffer" where
  "combinedBuffer generatedAudioChunks =
     (if 1 < length generatedAudioChunks then
        (let tempBuffers = map audioBuffer generatedAudioChunks;
             totalLength = foldl (\<lambda>acc buffer. acc + length_buf buffer) 0 tempBuffers
         in case createBuffer (numberOfChannels (tempBuffers ! 0)) totalLength
                   (sampleRate (tempBuffers ! 0)) of
              Inl e \<Rightarrow> Inl e
            | Inr concatenatedBuffer \<Rightarrow> concat_loop tempBuffers 0 concatenatedBuffer)
      else Inr (audioBuffer (generatedAudioChunks ! 0)))"

datatype download_outcome = NoDownload | Alerted error | Downloaded "byte list"

definition handleDownloadCombined :: "generated_audio_chunk list \<Rightarrow> download_outcome" where
  "handleDownloadCombined generatedAudioChunks =
     (if generatedAudioChunks = [] then NoDownload
      else case combinedBuffer generatedAudioChunks of
             Inl e \<Rightarrow> Alerted e
           | Inr finalMixedBuffer \<Rightarrow>
               (case audioBufferToWavBlob finalMixedBuffer of
                  Inl e \<Rightarrow> Alerted e
                | Inr blob \<Rightarrow> Downloaded blob))"

section \<open>Streaming playback queue (\<^verbatim>\<open>VoiceControlPanel\<close>)\<close>

text \<open>
  The panel's three refs: the FIFO of received buffers, the time at which the last
  scheduled buffer ends, and the set of source nodes that have not ended. A source node
  records its buffer and the time passed to \<^verbatim>\<open>source.start\<close>; \<open>scheduled\<close> lists every
  node started so far, in order. The clock \<^verbatim>\<open>outputAudioContext.currentTime\<close> is read-only
  and is passed to each handler as the value it reads; \<open>isLiveActive\<close> is the value the
  callback's closure holds.
\<close>

record source_node =
  node_id :: nat
  node_buffer :: audio_buffer
  start_time :: real

record playback =
  audioQueue :: "audio_buffer list"
  nextStartTime :: real
  audioSourceNodes :: "source_node list"
  scheduled :: "source_node list"

definition playQueuedAudio :: "bool \<Rightarrow> real \<Rightarrow> playback \<Rightarrow> playback" where
  "playQueuedAudio isLiveActive currentTime st =
     (if audioQueue st = [] \<or> \<not> isLiveActive then st
      else
        (let buffer = hd (audioQueue st);
             start = max (nextStartTime st) currentTime;
             source = \<lparr>node_id = length (scheduled st), node_buffer = buffer, start_time = start\<rparr>
         in st\<lparr>audioQueue := tl (audioQueue st),
                nextStartTime := start + duration buffer,
                audioSourceNodes := audioSourceNodes st @ [source],
                scheduled := scheduled st @ [source]\<rparr>))"

text \<open>\<^verbatim>\<open>source.onended\<close>: the node leaves the set; the next queued buffer, if any, is played.\<close>

definition onended :: "bool \<Rightarrow> real \<Rightarrow> source_node \<Rightarrow> playback \<Rightarrow> playback" where
  "onended isLiveActive currentTime source st =
     (let st' = st\<lparr>audioSourceNodes :=
                    filter (\<lambda>s. node_id s \<noteq> node_id source) (audioSourceNodes st)\<rparr>
      in if audioQueue st' \<noteq> [] then playQueuedAudio isLiveActive currentTime st' else st')"

definition handleLiveAudioChunk :: "bool \<Rightarrow> real \<Rightarrow> audio_buffer \<Rightarrow> playback \<Rightarrow> playback" where
  "handleLiveAudioChunk isLiveActive currentTime buffer st =
     (let st' = st\<lparr>audioQueue := audioQueue st @ [buffer]\<rparr>
      in if audioSourceNodes st' = [] \<or> nextStartTime st' \<le> currentTime
         then playQueuedAudio isLiveActive currentTime st'
         else st')"

text \<open>The schedule so far: each started buffer with its start time, in order.\<close>

definition starts :: "playback \<Rightarrow> (audio_buffer \<times> real) list" where
  "starts st = map (\<lambda>s. (node_buffer s, start_time s)) (scheduled st)"

text \<open>
  The panel around the queue. Its state \<^verbatim>\<open>isLiveActive\<close> starts \<^verbatim>\<open>false\<close>; the three refs
  are shared by all renders. Every render builds its own closures: \<^verbatim>\<open>playQueuedAudio\<close> is
  memoised on \<^verbatim>\<open>isLiveActive\<close>, \<^verbatim>\<open>handleLiveAudioChunk\<close> on \<^verbatim>\<open>playQueuedAudio\<close> and
  \<^verbatim>\<open>startLiveSession\<close> on \<^verbatim>\<open>handleLiveAudioChunk\<close>, so the closures of a render hold that
  render's value of \<^verbatim>\<open>isLiveActive\<close>. \<^verbatim>\<open>startLiveSession\<close> clears the refs and passes its
  \<^verbatim>\<open>handleLiveAudioChunk\<close> to the manager's \<^verbatim>\<open>start\<close>, which keeps it as the session's
  \<^verbatim>\<open>onAudioChunk\<close>; when \<^verbatim>\<open>start\<close> has resolved it sets \<^verbatim>\<open>isLiveActive\<close>, and when
  \<^verbatim>\<open>start\<close> throws (the missing API key, before any callback is installed) it resets it.
  The button calls \<^verbatim>\<open>stopLiveSession\<close> in a render where the session is active and
  \<^verbatim>\<open>startLiveSession\<close> otherwise.
\<close>

definition clear_refs :: "playback \<Rightarrow> playback" where
  "clear_refs st = st\<lparr>audioQueue := [], nextStartTime := 0, audioSourceNodes := []\<rparr>"

record panel =
  panel_isLiveActive :: bool
  panel_refs :: playback
  session_onAudioChunk :: "(real \<Rightarrow> audio_buffer \<Rightarrow> playback \<Rightarrow> playback) option"

definition startLiveSession :: "bool \<Rightarrow> error option \<Rightarrow> panel \<Rightarrow> panel" where
  "startLiveSession isLiveActive thrown p =
     (let p' = p\<lparr>panel_refs := clear_refs (panel_refs p)\<rparr>
      in case thrown of
           None \<Rightarrow> p'\<lparr>session_onAudioChunk := Some (handleLiveAudioChunk isLiveActive),
                      panel_isLiveActive := True\<rparr>
         | Some err \<Rightarrow> p'\<lparr>panel_isLiveActive := False\<rparr>)"

definition stopLiveSession :: "panel \<Rightarrow> panel" where
  "stopLiveSession p = p\<lparr>panel_isLiveActive := False, panel_refs := clear_refs (panel_refs p)\<rparr>"

definition button_onClick :: "error option \<Rightarrow> panel \<Rightarrow> panel" where
  "button_onClick thrown p =
     (if panel_isLiveActive p then stopLiveSession p
      else startLiveSession (panel_isLiveActive p) thrown p)"

text \<open>
  An audio part decoded by the session's \<^verbatim>\<open>onmessage\<close>: the callback the session holds
  runs on the refs, at the clock value it reads.
\<close>

definition initial_panel :: panel where
  "initial_panel =
     \<lparr>panel_isLiveActive = False,
      panel_refs = \<lparr>audioQueue = [], nextStartTime = 0, audioSourceNodes = [],
        scheduled = []\<rparr>,
      session_onAudioChunk = None\<rparr>"

definition live_audio :: "real \<Rightarrow> audio_buffer \<Rightarrow> panel \<Rightarrow> panel" where
  "live_audio currentTime buffer p =
     (case session_onAudioChunk p of
        None \<Rightarrow> p
      | Some callback \<Rightarrow> p\<lparr>panel_refs := callback currentTime buffer (panel_refs p)\<rparr>)"

section \<open>Batch synthesis (\<^verbatim>\<open>generateSpeech\<close>)\<close>

definition DEFAULT_SAMPLE_RATE :: nat where
  "DEFAULT_SAMPLE_RATE = 24000"

text \<open>
  \<^verbatim>\<open>String.prototype.trim\<close> removes the ECMAScript white space and line terminator code
  units from both ends.
\<close>

definition is_js_whitespace :: "char16 \<Rightarrow> bool" where
  "is_js_whitespace c \<longleftrightarrow>
     (let u = unat c in
      (9 \<le> u \<and> u \<le> 13) \<or> u = 32 \<or> u = 160 \<or> u = 5760 \<or> (8192 \<le> u \<and> u \<le> 8202)
      \<or> u = 8232 \<or> u = 8233 \<or> u = 8239 \<or> u = 8287 \<or> u = 12288 \<or> u = 65279)"

definition trim :: "jsstring \<Rightarrow> jsstring" where
  "trim s = rev (dropWhile is_js_whitespace (rev (dropWhile is_js_whitespace s)))"

text \<open>
  The options the modelled behaviour depends on. \<open>pieces\<close> is the array that
  \<^verbatim>\<open>script.split\<close> returns for the separator pattern (the regular-expression engine is the
  platform's); \<open>onProgress\<close> says whether a progress callback was supplied. The voice
  settings only shape the request sent to the remote service and are left out. The remote
  service is a function from the index of a segment to what its request resolves to:
  a rejection, or a response with or without an inline audio payload.
\<close>

datatype speaker_mode = Single | Multi

record speaker_config =
  name :: jsstring
  voiceId :: jsstring

record generate_speech_options =
  pieces :: "jsstring list"
  speakerMode :: speaker_mode
  multiSpeakerConfigs :: "speaker_config list option"
  onProgress :: bool

datatype api_result = Rejected error | Responded "jsstring option"

record batch_result =
  progress :: "(nat \<times> nat) list"
  outcome :: "error + generated_audio_chunk list"

definition getGenAI :: "jsstring option \<Rightarrow> error + unit" where
  "getGenAI api_key =
     (case api_key of
        None \<Rightarrow> Inl (Error ''API_KEY is not set or is empty.'')
      | Some k \<Rightarrow>
          if k = [] \<or> trim k = [] then Inl (Error ''API_KEY is not set or is empty.'')
          else Inr ())"

definition scriptSegments :: "generate_speech_options \<Rightarrow> jsstring list" where
  "scriptSegments options = filter (\<lambda>s. trim s \<noteq> []) (pieces options)"

definition validSpeakerConfigs :: "generate_speech_options \<Rightarrow> speaker_config list" where
  "validSpeakerConfigs options =
     (case multiSpeakerConfigs options of
        None \<Rightarrow> []
      | Some cs \<Rightarrow> filter (\<lambda>s. trim (name s) \<noteq> [] \<and> trim (voiceId s) \<noteq> []) cs)"

text \<open>
  The body of the \<^verbatim>\<open>try\<close> block for one segment, up to the decoded buffer: a rejected
  request or a payload that does not decode is an error; a response without payload (or
  with an empty one) yields no buffer.
\<close>

definition synthesize :: "api_result \<Rightarrow> error + audio_buffer option" where
  "synthesize response =
     (case response of
        Rejected e \<Rightarrow> Inl e
      | Responded None \<Rightarrow> Inr None
      | Responded (Some base64Audio) \<Rightarrow>
          if base64Audio = [] then Inr None
          else (case decode base64Audio of
                  Inl e \<Rightarrow> Inl e
                | Inr bytes \<Rightarrow>
                    (case decodeAudioData bytes DEFAULT_SAMPLE_RATE 1 of
                       Inl e \<Rightarrow> Inl e
                     | Inr buffer \<Rightarrow> Inr (Some buffer))))"

subsection \<open>The concurrent variant\<close>

text \<open>
  The state shared by the segment tasks and \<^verbatim>\<open>Promise.all\<close>: the counter, the progress
  callback's invocations so far, the number of UUIDs drawn, the value each settled task
  resolved to (by position), and the first rejection. \<^verbatim>\<open>crypto.randomUUID\<close> is a supply
  \<open>uuid\<close>: its \<open>k\<close>-th draw is \<open>uuid k\<close>.
\<close>

record batch_state =
  processedCount :: nat
  progress_calls :: "(nat \<times> nat) list"
  uuids_drawn :: nat
  settled :: "(nat \<times> generated_audio_chunk option) option list"
  rejection :: "error option"

definition count_and_report :: "bool \<Rightarrow> nat \<Rightarrow> batch_state \<Rightarrow> batch_state" where
  "count_and_report has_callback totalChunks st =
     st\<lparr>processedCount := Suc (processedCount st),
        progress_calls := progress_calls st
          @ (if has_callback then [(Suc (processedCount st), totalChunks)] else [])\<rparr>"

definition resolve :: "nat \<Rightarrow> generated_audio_chunk option \<Rightarrow> batch_state \<Rightarrow> batch_state" where
  "resolve originalIndex chunk st =
     st\<lparr>settled := (settled st)[originalIndex := Some (originalIndex, chunk)]\<rparr>"

definition reject :: "error \<Rightarrow> batch_state \<Rightarrow> batch_state" where
  "reject e st = (case rejection st of None \<Rightarrow> st\<lparr>rejection := Some e\<rparr> | Some _ \<Rightarrow> st)"

text \<open>
  One segment's task running to its end: every path counts the segment and reports
  progress first, then resolves (with a chunk or with \<^verbatim>\<open>null\<close>) or re-throws.
\<close>

definition complete_segment ::
  "bool \<Rightarrow> nat \<Rightarrow> (nat \<Rightarrow> jsstring) \<Rightarrow> jsstring \<Rightarrow> api_result \<Rightarrow> nat \<Rightarrow> batch_state \<Rightarrow> batch_state"
where
  "complete_segment has_callback totalChunks uuid segment response originalIndex st =
     (if trim segment = [] then
        resolve originalIndex None (count_and_report has_callback totalChunks st)
      else
        (case synthesize response of
           Inr (Some buffer) \<Rightarrow>
             (let st1 = count_and_report has_callback totalChunks st
              in resolve originalIndex
                   (Some \<lparr>chunk_id = uuid (uuids_drawn st1), chunk_text = trim segment,
                          audioBuffer = buffer\<rparr>)
                   (st1\<lparr>uuids_drawn := Suc (uuids_drawn st1)\<rparr>))
         | Inr None \<Rightarrow>
             resolve originalIndex None (count_and_report has_callback totalChunks st)
         | Inl e \<Rightarrow> reject e (count_and_report has_callback totalChunks st)))"

text \<open>
  \<^verbatim>\<open>generateSpeech\<close>. \<open>order\<close> is the order in which the segment tasks run to their end.
  \<open>progress\<close> lists every invocation of the callback, also those of segments that finish
  after a rejection has already failed the batch (no request is cancelled). The batch
  rejects with the first rejection; otherwise the resolved values are filtered, sorted by
  \<^verbatim>\<open>originalIndex\<close> (a stable sort) and stripped to their chunks.
\<close>

definition generateSpeech ::
  "jsstring option \<Rightarrow> (nat \<Rightarrow> jsstring) \<Rightarrow> generate_speech_options \<Rightarrow> (nat \<Rightarrow> api_result)
   \<Rightarrow> nat list \<Rightarrow> batch_result"
where
  "generateSpeech api_key uuid options respond order =
     (case getGenAI api_key of
        Inl e \<Rightarrow> \<lparr>progress = [], outcome = Inl e\<rparr>
      | Inr _ \<Rightarrow>
          (let segments = scriptSegments options;
               totalChunks = length segments;
               initial = (if onProgress options then [(0, totalChunks)] else [])
           in if speakerMode options = Multi \<and> validSpeakerConfigs options = [] then
                \<lparr>progress = initial,
                 outcome = Inl (Error ''Multi-speaker mode requires at least one speaker.'')\<rparr>
              else
                (let st = fold (\<lambda>originalIndex.
                                  complete_segment (onProgress options) totalChunks uuid
                                    (segments ! originalIndex) (respond originalIndex)
                                    originalIndex)
                            order
                            \<lparr>processedCount = 0, progress_calls = initial, uuids_drawn = 0,
                             settled = replicate totalChunks None, rejection = None\<rparr>
                 in \<lparr>progress = progress_calls st,
                     outcome =
                       (case rejection st of
                          Some e \<Rightarrow> Inl e
                        | None \<Rightarrow>
                            Inr (map (\<lambda>res. the (snd res))
                                   (sort_key fst
                                      (filter (\<lambda>res. snd res \<noteq> None)
                                         (map the (settled st))))))\<rparr>)))"

subsection \<open>The sequential variant (\<^verbatim>\<open>services/geminiService.ts\<close>)\<close>

fun sequential_loop ::
  "bool \<Rightarrow> nat \<Rightarrow> (nat \<Rightarrow> jsstring) \<Rightarrow> (nat \<Rightarrow> api_result) \<Rightarrow> (nat \<times> jsstring) list
   \<Rightarrow> generated_audio_chunk list \<Rightarrow> (nat \<times> nat) list \<Rightarrow> batch_result"
where
  "sequential_loop has_callback totalChunks uuid respond [] chunks calls =
     \<lparr>progress = calls, outcome = Inr chunks\<rparr>"
| "sequential_loop has_callback totalChunks uuid respond ((i, segment) # rest) chunks calls =
     (if trim segment = [] then
        sequential_loop has_callback totalChunks uuid respond rest chunks calls
      else
        (case synthesize (respond i) of
           Inl e \<Rightarrow> \<lparr>progress = calls, outcome = Inl e\<rparr>
         | Inr None \<Rightarrow> sequential_loop has_callback totalChunks uuid respond rest chunks calls
         | Inr (Some buffer) \<Rightarrow>
             (let chunks' = chunks @ [\<lparr>chunk_id = uuid (length chunks),
                                       chunk_text = trim segment, audioBuffer = buffer\<rparr>]
              in sequential_loop has_callback totalChunks uuid respond rest chunks'
                   (calls @ (if has_callback then [(length chunks', totalChunks)] else [])))))"

definition generateSpeech_sequential ::
  "jsstring option \<Rightarrow> (nat \<Rightarrow> jsstring) \<Rightarrow> generate_speech_options \<Rightarrow> (nat \<Rightarrow> api_result)
   \<Rightarrow> batch_result"
where
  "generateSpeech_sequential api_key uuid options respond =
     (case getGenAI api_key of
        Inl e \<Rightarrow> \<lparr>progress = [], outcome = Inl e\<rparr>
      | Inr _ \<Rightarrow>
          (let segments = scriptSegments options;
               totalChunks = length segments;
               initial = (if onProgress options then [(0, totalChunks)] else [])
           in if speakerMode options = Multi \<and> validSpeakerConfigs options = [] then
                \<lparr>progress = initial,
                 outcome = Inl (Error ''Multi-speaker mode requires at least one speaker.'')\<rparr>
              else
                sequential_loop (onProgress options) totalChunks uuid respond
                  (zip [0..<totalChunks] segments) [] initial))"

text \<open>
  What the batch is expected to return: for every segment, in script order, whose request
  yields a buffer, the trimmed text and that buffer.
\<close>

definition expected_chunks ::
  "generate_speech_options \<Rightarrow> (nat \<Rightarrow> api_result) \<Rightarrow> (jsstring \<times> audio_buffer) list" where
  "expected_chunks options respond =
     List.map_filter
       (\<lambda>i. case synthesize (respond i) of
               Inr (Some buffer) \<Rightarrow> Some (trim (scriptSegments options ! i), buffer)
             | _ \<Rightarrow> None)
       [0..<length (scriptSegments options)]"

section \<open>Live session manager (\<^verbatim>\<open>createLiveSessionManager\<close>)\<close>

text \<open>
  The manager's closure variables, the number of UUIDs drawn, and a log of what the
  manager does to the outside: stopping the tracks of a media stream, disconnecting the
  processing node, asking a session to close, and invoking a callback. Handles are
  numbers. The last three effects are the state updates of the panel's error handler.
\<close>

datatype speaker = User | Model

record live_speaker_turn =
  turn_id :: jsstring
  speaker :: speaker
  turn_text :: jsstring

datatype effect =
    TracksStopped nat
  | NodeDisconnected nat
  | SessionCloseRequested nat
  | TranscriptionUpdate jsstring jsstring
  | CompleteTurn "live_speaker_turn list"
  | AudioChunk audio_buffer
  | ErrorReported error
  | CloseReported
  | SetLiveError error
  | SetIsLiveActive bool
  | SetIsConnecting bool

record live_manager =
  sessionPromise :: "nat option"
  mediaStream :: "nat option"
  scriptProcessorNode :: "nat option"
  currentInputTranscription :: jsstring
  currentOutputTranscription :: jsstring
  accumulatedTurns :: "live_speaker_turn list"
  uuids_taken :: nat
  effects :: "effect list"

text \<open>
  A callback is code of the caller: it may call back into the manager, so it is a function
  on the manager's state. The manager logs the invocation and then runs the callback.
\<close>

record callbacks =
  onTranscriptionUpdate :: "jsstring \<Rightarrow> jsstring \<Rightarrow> live_manager \<Rightarrow> live_manager"
  onCompleteTurn :: "live_speaker_turn list \<Rightarrow> live_manager \<Rightarrow> live_manager"
  onAudioChunk :: "audio_buffer \<Rightarrow> live_manager \<Rightarrow> live_manager"
  onError :: "error \<Rightarrow> live_manager \<Rightarrow> live_manager"
  onClose :: "live_manager \<Rightarrow> live_manager"

definition emit :: "effect \<Rightarrow> live_manager \<Rightarrow> live_manager" where
  "emit e m = m\<lparr>effects := effects m @ [e]\<rparr>"

definition resetTranscription :: "live_manager \<Rightarrow> live_manager" where
  "resetTranscription m =
     m\<lparr>currentInputTranscription := [], currentOutputTranscription := [],
       accumulatedTurns := []\<rparr>"

definition stop :: "live_manager \<Rightarrow> live_manager" where
  "stop m =
     (let m1 = (case mediaStream m of
                  Some s \<Rightarrow> (emit (TracksStopped s) m)\<lparr>mediaStream := None\<rparr>
                | None \<Rightarrow> m);
          m2 = (case scriptProcessorNode m1 of
                  Some n \<Rightarrow> (emit (NodeDisconnected n) m1)\<lparr>scriptProcessorNode := None\<rparr>
                | None \<Rightarrow> m1);
          m3 = (case sessionPromise m2 of
                  Some p \<Rightarrow> (emit (SessionCloseRequested p) m2)\<lparr>sessionPromise := None\<rparr>
                | None \<Rightarrow> m2)
      in resetTranscription m3)"

text \<open>
  An inbound message, as far as \<^verbatim>\<open>onmessage\<close> reads it: the two optional transcription
  objects (whose \<^verbatim>\<open>text\<close> may be undefined, which \<^verbatim>\<open>+=\<close> appends as the string
  \<^verbatim>\<open>undefined\<close>), the turn-complete flag, and the inline data of the model turn's first
  part.
\<close>

datatype transcription = Transcription "jsstring option"

record live_server_message =
  outputTranscription :: "transcription option"
  inputTranscription :: "transcription option"
  turnComplete :: bool
  inlineAudio :: "jsstring option"

definition appended :: "transcription \<Rightarrow> jsstring" where
  "appended t = (case t of Transcription None \<Rightarrow> js ''undefined'' | Transcription (Some s) \<Rightarrow> s)"

definition handle_transcriptions :: "callbacks \<Rightarrow> live_server_message \<Rightarrow> live_manager \<Rightarrow> live_manager"
where
  "handle_transcriptions cbs message m =
     (let m1 = (case outputTranscription message of
                  None \<Rightarrow> m
                | Some t \<Rightarrow>
                    (let m' = m\<lparr>currentOutputTranscription :=
                                   currentOutputTranscription m @ appended t\<rparr>
                     in onTranscriptionUpdate cbs (currentInputTranscription m')
                          (currentOutputTranscription m')
                          (emit (TranscriptionUpdate (currentInputTranscription m')
                                   (currentOutputTranscription m')) m')))
      in case inputTranscription message of
           None \<Rightarrow> m1
         | Some t \<Rightarrow>
             (let m' = m1\<lparr>currentInputTranscription :=
                             currentInputTranscription m1 @ appended t\<rparr>
              in onTranscriptionUpdate cbs (currentInputTranscription m')
                   (currentOutputTranscription m')
                   (emit (TranscriptionUpdate (currentInputTranscription m')
                            (currentOutputTranscription m')) m')))"

text \<open>The \<^verbatim>\<open>turnComplete\<close> block.\<close>

definition push_turn :: "(nat \<Rightarrow> jsstring) \<Rightarrow> speaker \<Rightarrow> jsstring \<Rightarrow> live_manager \<Rightarrow> live_manager" where
  "push_turn uuid who full m =
     (if full \<noteq> [] then
        m\<lparr>accumulatedTurns := accumulatedTurns m
             @ [\<lparr>turn_id = uuid (uuids_taken m), speaker = who, turn_text = full\<rparr>],
          uuids_taken := Suc (uuids_taken m)\<rparr>
      else m)"

definition handle_turn_complete ::
  "callbacks \<Rightarrow> (nat \<Rightarrow> jsstring) \<Rightarrow> live_server_message \<Rightarrow> live_manager \<Rightarrow> live_manager"
where
  "handle_turn_complete cbs uuid message m =
     (if turnComplete message then
        (let fullInput = currentInputTranscription m;
             fullOutput = currentOutputTranscription m;
             m1 = push_turn uuid Model fullOutput (push_turn uuid User fullInput m);
             m2 = onCompleteTurn cbs (accumulatedTurns m1)
                    (emit (CompleteTurn (accumulatedTurns m1)) m1)
         in m2\<lparr>currentInputTranscription := [], currentOutputTranscription := []\<rparr>)
      else m)"

text \<open>The audio block: decode the payload and hand the buffer on, or report the error.\<close>

definition decode_payload :: "jsstring \<Rightarrow> error + audio_buffer" where
  "decode_payload base64 =
     (case decode base64 of
        Inl e \<Rightarrow> Inl e
      | Inr bytes \<Rightarrow> decodeAudioData bytes DEFAULT_SAMPLE_RATE 1)"

definition handle_audio :: "callbacks \<Rightarrow> live_server_message \<Rightarrow> live_manager \<Rightarrow> live_manager" where
  "handle_audio cbs message m =
     (case inlineAudio message of
        None \<Rightarrow> m
      | Some base64 \<Rightarrow>
          if base64 = [] then m
          else (case decode_payload base64 of
                  Inr buffer \<Rightarrow> onAudioChunk cbs buffer (emit (AudioChunk buffer) m)
                | Inl e \<Rightarrow> onError cbs e (emit (ErrorReported e) m)))"

definition onmessage ::
  "callbacks \<Rightarrow> (nat \<Rightarrow> jsstring) \<Rightarrow> live_server_message \<Rightarrow> live_manager \<Rightarrow> live_manager"
where
  "onmessage cbs uuid message m =
     handle_audio cbs message
       (handle_turn_complete cbs uuid message (handle_transcriptions cbs message m))"


definition onclose :: "callbacks \<Rightarrow> live_manager \<Rightarrow> live_manager" where
  "onclose cbs m = stop (onClose cbs (emit CloseReported m))"

text \<open>
  The panel's error handler \<^verbatim>\<open>handleLiveError\<close>, the one callback of the application that
  calls back into the manager: it sets three pieces of panel state and calls
  \<^verbatim>\<open>liveSessionManagerRef.current?.stop()\<close>.
\<close>

definition handleLiveError :: "error \<Rightarrow> live_manager \<Rightarrow> live_manager" where
  "handleLiveError e m =
     stop (emit (SetIsConnecting False) (emit (SetIsLiveActive False) (emit (SetLiveError e) m)))"

text \<open>Callbacks that do nothing to the manager.\<close>

definition quiet :: callbacks where
  "quiet = \<lparr>onTranscriptionUpdate = (\<lambda>_ _ m. m), onCompleteTurn = (\<lambda>_ m. m),
            onAudioChunk = (\<lambda>_ m. m), onError = (\<lambda>_ m. m), onClose = (\<lambda>m. m)\<rparr>"

section \<open>Base64 round trip\<close>

lemma unat_char16: "k < 65536 \<Longrightarrow> unat (of_nat k :: char16) = k"
  by (simp add: unat_of_nat)

lemma base64_code_less: "base64_code n < 128"
  by (auto simp: base64_code_def)

lemma unat_base64_char: "unat (base64_char n) = base64_code n"
  unfolding base64_char_def using base64_code_less [of n] by (intro unat_char16) linarith

lemma base64_index_code: "n < 64 \<Longrightarrow> base64_index (base64_code n) = Some n"
  by (auto simp: base64_index_def base64_code_def)

lemma base64_value_char: "n < 64 \<Longrightarrow> base64_value (base64_char n) = Some n"
  by (simp add: base64_value_def unat_base64_char base64_index_code)

lemma base64_code_plain: "n < 64 \<Longrightarrow> base64_code n \<notin> {9, 10, 12, 13, 32, 61}"
  by (auto simp: base64_code_def)

lemma base64_char_plain:
  assumes "n < 64"
  shows "\<not> is_ascii_whitespace (base64_char n)" and "base64_char n \<noteq> 61"
proof -
  have ne: "base64_char n \<noteq> w" if "unat w \<in> {9, 10, 12, 13, 32, 61}" for w
    using base64_code_plain [OF assms] that unat_base64_char [of n] by auto
  show "base64_char n \<noteq> 61"
    by (rule ne) simp
  have "base64_char n \<noteq> 9" "base64_char n \<noteq> 10" "base64_char n \<noteq> 12"
    "base64_char n \<noteq> 13" "base64_char n \<noteq> 32"
    by (rule ne, simp)+
  then show "\<not> is_ascii_whitespace (base64_char n)"
    by (simp add: is_ascii_whitespace_def)
qed

lemma div_split: "y < k \<Longrightarrow> (x * k + y) div k = (x::nat)"
  by simp

lemma mod_split: "y < k \<Longrightarrow> (x * k + y) mod k = (y::nat)"
  by simp

lemma byte_slices:
  fixes a b c :: nat
  assumes "b < 256" "c < 256"
  shows "a div 4 * 4 + (a mod 4 * 16 + b div 16) div 16 = a"
    and "(a mod 4 * 16 + b div 16) mod 16 * 16 + (b mod 16 * 4 + c div 64) div 4 = b"
    and "(b mod 16 * 4 + c div 64) mod 4 * 64 + c mod 64 = c"
proof -
  have "b div 16 < 16" "c div 64 < 4" using assms by simp_all
  then show "a div 4 * 4 + (a mod 4 * 16 + b div 16) div 16 = a"
    and "(a mod 4 * 16 + b div 16) mod 16 * 16 + (b mod 16 * 4 + c div 64) div 4 = b"
    and "(b mod 16 * 4 + c div 64) mod 4 * 64 + c mod 64 = c"
    by (simp_all add: div_split mod_split)
qed

lemma byte_slices_tail:
  fixes a b :: nat
  assumes "b < 256"
  shows "a div 4 * 4 + (a mod 4 * 16) div 16 = a"
    and "(a mod 4 * 16 + b div 16) mod 16 * 16 + (b mod 16 * 4) div 4 = b"
proof -
  have "b div 16 < 16" using assms by simp
  then show "a div 4 * 4 + (a mod 4 * 16) div 16 = a"
    and "(a mod 4 * 16 + b div 16) mod 16 * 16 + (b mod 16 * 4) div 4 = b"
    by (simp_all add: mod_split)
qed

lemma sextet_bounds:
  fixes a b c :: nat
  assumes "a < 256" "b < 256" "c < 256"
  shows "a div 4 < 64" "a mod 4 * 16 + b div 16 < 64" "b mod 16 * 4 + c div 64 < 64"
    "c mod 64 < 64" "a mod 4 * 16 < 64" "b mod 16 * 4 < 64"
proof -
  have "a mod 4 < 4" "b mod 16 < 16" "b div 16 < 16" "c div 64 < 4" "a div 4 < 64"
    using assms by simp_all
  then show "a div 4 < 64" "a mod 4 * 16 + b div 16 < 64" "b mod 16 * 4 + c div 64 < 64"
    "c mod 64 < 64" "a mod 4 * 16 < 64" "b mod 16 * 4 < 64"
    by simp_all
qed

lemma decode_encode_sextets:
  "\<forall>x \<in> set xs. x < 256 \<Longrightarrow> decode_sextets (encode_sextets xs) = xs"
proof (induction xs rule: encode_sextets.induct)
  case 1
  show ?case by simp
next
  case (2 a)
  show ?case using byte_slices_tail(1) [of 0 a] by simp
next
  case (3 a b)
  then have "b < 256" by simp
  then show ?case by (simp add: byte_slices_tail)
next
  case (4 a b c rest)
  then have "b < 256" "c < 256" "\<forall>x \<in> set rest. x < 256" by simp_all
  then show ?case using "4.IH" by (simp add: byte_slices)
qed

lemma encode_sextets_bound:
  "\<forall>x \<in> set xs. x < 256 \<Longrightarrow> \<forall>s \<in> set (encode_sextets xs). s < 64"
proof (induction xs rule: encode_sextets.induct)
  case 1
  show ?case by simp
next
  case (2 a)
  then show ?case using sextet_bounds [of a 0 0] by simp
next
  case (3 a b)
  then show ?case using sextet_bounds [of a b 0] by simp
next
  case (4 a b c rest)
  then show ?case using sextet_bounds [of a b c] by simp
qed

lemma length_encode_sextets:
  "length (encode_sextets xs) = (case length xs mod 3 of 0 \<Rightarrow> 4 * (length xs div 3) | Suc 0 \<Rightarrow> 4 * (length xs div 3) + 2 | _ \<Rightarrow> 4 * (length xs div 3) + 3)"
proof (induction xs rule: encode_sextets.induct)
  case (4 a b c rest)
  have "length (a # b # c # rest) = length rest + 3" by simp
  then show ?case using 4 by (simp split: nat.splits)
qed simp_all

lemma strip_padding_encoded:
  assumes len: "length (cs @ replicate p 61) mod 4 = 0" and p: "p \<le> 2"
    and plain: "\<forall>c \<in> set cs. c \<noteq> 61"
  shows "strip_padding (cs @ replicate p 61) = cs"
proof -
  have last_cs: "cs \<noteq> [] \<Longrightarrow> last cs \<noteq> 61"
    using plain last_in_set by blast
  consider "p = 0" | "p = 1" | "p = 2" using p by linarith
  then show ?thesis
  proof cases
    case 1
    then show ?thesis using last_cs by (auto simp: strip_padding_def)
  next
    case 2
    then have "cs \<noteq> []" using len by auto
    then show ?thesis using 2 last_cs len by (simp add: strip_padding_def)
  next
    case 3
    then have rep: "replicate p (61::char16) = [61, 61]" by (simp add: numeral_2_eq_2)
    have "cs \<noteq> []"
    proof
      assume "cs = []"
      then have "length (cs @ replicate p 61) = 2" using 3 by simp
      then have "(2::nat) mod 4 = 0" using len by simp
      then show False by simp
    qed
    then show ?thesis using last_cs len unfolding rep
      by (simp add: strip_padding_def butlast_append)
  qed
qed

lemma unat_byte_less: "unat (b :: byte) < 256"
  using unsigned_less [of b, where 'a = nat] by simp

lemma unat_ucast_byte: "unat (ucast (b :: byte) :: char16) = unat b"
  using unat_byte_less [of b] by (simp add: unsigned_ucast_eq take_bit_nat_eq_self)

lemma ucast_ucast_byte: "(ucast (ucast (b :: byte) :: char16) :: byte) = b"
  by (simp add: ucast_up_ucast_id is_up)

lemma padded_length:
  "(length (encode_sextets xs) + (3 - length xs mod 3) mod 3) mod 4 = 0"
  "length (encode_sextets xs) mod 4 \<noteq> Suc 0"
  by (induction xs rule: encode_sextets.induct) simp_all

lemma encode_then_decode: "\<exists>s. encode b = Inr s \<and> decode s = Inr b"
proof -
  let ?xs = "map unat b"
  let ?sx = "encode_sextets ?xs"
  let ?cs = "map base64_char ?sx"
  let ?p = "(3 - length b mod 3) mod 3"
  have bytes: "\<forall>x \<in> set ?xs. x < 256"
    using unat_byte_less by auto
  have sx: "\<forall>s \<in> set ?sx. s < 64"
    using encode_sextets_bound [OF bytes] .
  have enc: "encode b = Inr (?cs @ replicate ?p 61)"
    using bytes by (auto simp: encode_def btoa_def o_def unat_ucast_byte)
  have "\<forall>c \<in> set ?cs. \<not> is_ascii_whitespace c"
    using sx by (auto simp: base64_char_plain)
  moreover have "\<not> is_ascii_whitespace 61"
    by (simp add: is_ascii_whitespace_def)
  ultimately have nows:
    "filter (\<lambda>c. \<not> is_ascii_whitespace c) (?cs @ replicate ?p 61) = ?cs @ replicate ?p 61"
    by (simp add: filter_id_conv)
  have strip: "strip_padding (?cs @ replicate ?p 61) = ?cs"
  proof (rule strip_padding_encoded)
    show "length (?cs @ replicate ?p 61) mod 4 = 0"
      using padded_length(1) [of ?xs] by simp
    show "?p \<le> 2" by simp
    show "\<forall>c \<in> set ?cs. c \<noteq> 61" using sx by (auto simp: base64_char_plain)
  qed
  have vals: "map (\<lambda>c. the (base64_value c)) ?cs = ?sx"
    using sx by (simp add: o_def base64_value_char map_idI)
  have alpha: "\<not> (\<exists>c \<in> set ?cs. base64_value c = None)"
    using sx by (auto simp: base64_value_char)
  have len: "length ?cs mod 4 \<noteq> 1"
    using padded_length(2) [of ?xs] by simp
  have "atob (?cs @ replicate ?p 61) = Inr (map of_nat (decode_sextets ?sx))"
    unfolding atob_def nows strip Let_def vals using alpha len by simp
  then have "decode (?cs @ replicate ?p 61) = Inr b"
    by (simp add: decode_def decode_encode_sextets [OF bytes] o_def ucast_ucast_byte)
  with enc show ?thesis by blast
qed

text \<open>
  Claim C10. For every byte array \<open>b\<close>, \<^verbatim>\<open>encode\<close> succeeds and \<^verbatim>\<open>decode\<close> of its result
  is \<open>b\<close> again, byte for byte.
\<close>

theorem decode_encode_roundtrip: "\<exists>s. encode b = Inr s \<and> decode s = Inr b"
  by (rule encode_then_decode)

section \<open>PCM round trip\<close>

lemma int16_bytes:
  "ucast (ucast (w :: int16) :: byte) OR push_bit 8 (ucast (ucast (drop_bit 8 w) :: byte)) = w"
  by (rule bit_word_eqI) (auto simp: bit_simps)

lemma int16_of_bytes_roundtrip: "int16_of_bytes (Uint8Array_of_int16_buffer ws) = ws"
  by (induction ws) (simp_all add: Uint8Array_of_int16_buffer_def bytes_of_int16_def int16_bytes)

lemma length_Uint8Array: "length (Uint8Array_of_int16_buffer ws) = 2 * length ws"
  by (induction ws) (simp_all add: Uint8Array_of_int16_buffer_def bytes_of_int16_def)

lemma sint_ToInt16:
  "- 32768 \<le> js_trunc x \<Longrightarrow> js_trunc x < 32768 \<Longrightarrow> sint (ToInt16 x) = js_trunc x"
  by (simp add: ToInt16_def signed_of_int signed_take_bit_int_eq_self)

lemma js_trunc_close: "\<bar>real_of_int (js_trunc y) - y\<bar> < 1"
  unfolding js_trunc_def by (simp split: if_splits) linarith

lemma js_trunc_range:
  "- 32768 \<le> y \<Longrightarrow> y < 32768 \<Longrightarrow> - 32768 \<le> js_trunc y \<and> js_trunc y < 32768"
  unfolding js_trunc_def by (auto simp: le_ceiling_iff floor_less_iff)

lemma pcm_roundtrip_value:
  assumes "samples \<noteq> []" and "0 < rate"
  shows "pcm_roundtrip samples rate =
    Inr \<lparr>sampleRate = rate, numberOfChannels = 1, length_buf = length samples,
         channelData = [map (\<lambda>x. real_of_int (sint (ToInt16 (x * 32768))) / 32768) samples]\<rparr>"
proof -
  let ?int16 = "map (\<lambda>x. ToInt16 (x * 32768)) samples"
  let ?bytes = "Uint8Array_of_int16_buffer ?int16"
  obtain s where s: "encode ?bytes = Inr s" "decode s = Inr ?bytes"
    using encode_then_decode by blast
  have view: "Int16Array_of_buffer ?bytes = Inr ?int16"
    by (simp add: Int16Array_of_buffer_def length_Uint8Array int16_of_bytes_roundtrip)
  have create: "createBuffer (Suc 0) (length samples) rate =
      Inr \<lparr>sampleRate = rate, numberOfChannels = 1, length_buf = length samples,
           channelData = [replicate (length samples) 0]\<rparr>"
    using assms by (simp add: createBuffer_def)
  have "map (\<lambda>i. real_of_int (sint (?int16 ! i)) / 32768) [0..<length samples]
      = map (\<lambda>x. real_of_int (sint (ToInt16 (x * 32768))) / 32768) samples"
    by (rule nth_equalityI) simp_all
  then have "decodeAudioData ?bytes rate 1 =
      Inr \<lparr>sampleRate = rate, numberOfChannels = 1, length_buf = length samples,
           channelData = [map (\<lambda>x. real_of_int (sint (ToInt16 (x * 32768))) / 32768) samples]\<rparr>"
    unfolding decodeAudioData_def view by (simp add: create Let_def)
  then show ?thesis
    by (simp add: pcm_roundtrip_def createPcmBlob_def s)
qed

lemma roundtrip_sample_close:
  assumes "- 1 \<le> x" and "x < 1"
  shows "\<bar>real_of_int (sint (ToInt16 (x * 32768))) / 32768 - x\<bar> < 1 / 32768"
proof -
  let ?y = "x * 32768"
  have range: "- 32768 \<le> ?y" "?y < 32768" using assms by simp_all
  have "sint (ToInt16 ?y) = js_trunc ?y"
    using js_trunc_range [OF range] by (simp add: sint_ToInt16)
  moreover have "\<bar>real_of_int (js_trunc ?y) - ?y\<bar> < 1"
    by (rule js_trunc_close)
  ultimately have "\<bar>real_of_int (sint (ToInt16 ?y)) - ?y\<bar> < 1" by simp
  then have "\<bar>(real_of_int (sint (ToInt16 ?y)) - ?y) / 32768\<bar> < 1 / 32768"
    by (simp add: abs_divide)
  then show ?thesis by (simp add: diff_divide_distrib)
qed

lemma pcm_roundtrip_below_full_scale:
  assumes "samples \<noteq> []" and "0 < rate" and "\<forall>x \<in> set samples. - 1 \<le> x \<and> x < 1"
  shows "\<exists>buf ys. pcm_roundtrip samples rate = Inr buf \<and> channelData buf = [ys] \<and>
    length ys = length samples \<and> (\<forall>i < length samples. \<bar>ys ! i - samples ! i\<bar> < 1 / 32768)"
proof -
  let ?ys = "map (\<lambda>x. real_of_int (sint (ToInt16 (x * 32768))) / 32768) samples"
  have close: "\<forall>i < length samples. \<bar>?ys ! i - samples ! i\<bar> < 1 / 32768"
  proof (intro allI impI)
    fix i
    assume i: "i < length samples"
    then have "samples ! i \<in> set samples" by simp
    with assms(3) have "- 1 \<le> samples ! i" "samples ! i < 1" by auto
    from roundtrip_sample_close [OF this] show "\<bar>?ys ! i - samples ! i\<bar> < 1 / 32768"
      using i by simp
  qed
  show ?thesis
    unfolding pcm_roundtrip_value [OF assms(1,2)] using close by simp
qed

text \<open>
  Claim C3. The claim bounds the round-trip error of \<^verbatim>\<open>createPcmBlob\<close> followed by
  \<^verbatim>\<open>decode\<close> and \<^verbatim>\<open>decodeAudioData\<close> by \<open>1/32768\<close> for samples in \<open>[-1, 1]\<close>. The code
  meets the bound below full scale (lemma \<open>pcm_roundtrip_below_full_scale\<close>), but the sample
  \<open>1\<close> becomes \<open>32768\<close>, which the \<^verbatim>\<open>Int16Array\<close> store wraps to \<open>-32768\<close>: it comes
  back as \<open>-1\<close>.
\<close>

theorem createPcmBlob_wraps_full_scale:
  "pcm_roundtrip [1] 16000 =
     Inr \<lparr>sampleRate = 16000, numberOfChannels = 1, length_buf = 1, channelData = [[- 1]]\<rparr>"
  by (simp add: pcm_roundtrip_value ToInt16_def js_trunc_def)

section \<open>WAV layout\<close>

lemma word32_bytes:
  "ucast (ucast (w :: 32 word) :: byte) OR push_bit 8 (ucast (ucast (drop_bit 8 w) :: byte))
   OR push_bit 16 (ucast (ucast (drop_bit 16 w) :: byte))
   OR push_bit 24 (ucast (ucast (drop_bit 24 w) :: byte)) = w" (is "?lhs = w")
proof (rule bit_word_eqI)
  fix n
  assume "n < LENGTH(32)"
  then consider "n < 8" | "8 \<le> n" "n < 16" | "16 \<le> n" "n < 24" | "24 \<le> n" "n < 32"
    by fastforce
  then show "bit ?lhs n \<longleftrightarrow> bit w n"
    by cases (auto simp: bit_simps)
qed

lemma u16_le16: "v < 65536 \<Longrightarrow> u16_at (pre @ le16 v @ post) (length pre) = v"
  by (simp add: u16_at_def le16_def Let_def nth_append int16_bytes unat_of_nat)

lemma u32_le32: "v < 4294967296 \<Longrightarrow> u32_at (pre @ le32 v @ post) (length pre) = v"
  by (simp add: u32_at_def le32_def Let_def nth_append word32_bytes unat_of_nat)

lemma s16_bytes: "s16_at (pre @ bytes_of_int16 w @ post) (length pre) = sint w"
  by (simp add: s16_at_def bytes_of_int16_def nth_append int16_bytes)

lemma set_chars_fits:
  "pos + length s \<le> length view \<Longrightarrow>
   set_chars view pos s = Inr (take pos view @ map ucast s @ drop (pos + length s) view)"
proof (induction s arbitrary: view pos)
  case Nil
  then show ?case by simp
next
  case (Cons c cs)
  let ?v = "take pos view @ [ucast c] @ drop (pos + 1) view"
  have store: "setUint8 view pos c = Inr ?v"
    using Cons.prems by (simp add: setUint8_def dv_store_def)
  have len: "length ?v = length view" using Cons.prems by simp
  have "set_chars ?v (pos + 1) cs = Inr (take (pos + 1) ?v @ map ucast cs @ drop (pos + 1 + length cs) ?v)"
    using Cons.prems len by (intro Cons.IH) simp
  moreover have "take (pos + 1) ?v = take pos view @ [ucast c]"
    using Cons.prems by simp
  moreover have "drop (pos + 1 + length cs) ?v = drop (pos + length (c # cs)) view"
    using Cons.prems by (simp add: add.commute)
  ultimately show ?case using store by simp
qed


lemma length_le [simp]: "length (le16 v) = 2" "length (le32 v) = 4" "length (bytes_of_int16 w) = 2"
  by (simp_all add: le16_def le32_def bytes_of_int16_def Let_def)

lemma spliced:
  assumes "p + length bs \<le> length v"
  shows "take (p + length bs) (take p v @ bs @ drop (p + length bs) v) = take p v @ bs"
    and "drop (p + length bs + k) (take p v @ bs @ drop (p + length bs) v)
         = drop (p + length bs + k) v"
    and "length (take p v @ bs @ drop (p + length bs) v) = length v"
  using assms by (simp_all add: add.commute)

lemma emits_writeString: "emits (writeString s) (map ucast s)"
  by (simp add: emits_def writeString_def set_chars_fits)

lemma emits_writeUint32: "emits (writeUint32 i) (le32 i)"
  by (simp add: emits_def writeUint32_def setUint32_def dv_store_def)

lemma emits_writeUint16: "emits (writeUint16 i) (le16 i)"
  by (simp add: emits_def writeUint16_def setUint16_def dv_store_def)

lemma emits_writeSample: "emits (writeSample x) (bytes_of_int16 (ToInt16 (scale_sample x)))"
  by (simp add: emits_def writeSample_def setInt16_def dv_store_def)

lemma write_all_emits:
  "list_all2 emits fs bss \<Longrightarrow> off + length (concat bss) \<le> length view \<Longrightarrow>
   write_all fs (view, off) =
     Inr (take off view @ concat bss @ drop (off + length (concat bss)) view,
          off + length (concat bss))"
proof (induction fs bss arbitrary: view off rule: list_all2_induct)
  case Nil
  then show ?case by simp
next
  case (Cons f fs bs bss)
  let ?v = "take off view @ bs @ drop (off + length bs) view"
  have fits: "off + length bs \<le> length view" using Cons.prems by simp
  have step: "f (view, off) = Inr (?v, off + length bs)"
    using Cons.hyps(1) fits by (simp add: emits_def)
  have "write_all fs (?v, off + length bs) =
      Inr (take (off + length bs) ?v @ concat bss
           @ drop (off + length bs + length (concat bss)) ?v,
           off + length bs + length (concat bss))"
    using Cons.prems spliced(3) [OF fits] by (intro Cons.IH) simp
  then show ?case
    unfolding spliced(1) [OF fits] spliced(2) [OF fits]
    using step by (simp add: add.assoc)
qed


lemma slot_unique:
  fixes c ch :: nat
  assumes "c < ch"
  shows "k = m * ch + c \<longleftrightarrow> k mod ch = c \<and> k div ch = m"
proof
  assume "k = m * ch + c"
  then show "k mod ch = c \<and> k div ch = m" using assms by simp
next
  assume "k mod ch = c \<and> k div ch = m"
  then show "k = m * ch + c" using div_mult_mod_eq [of k ch] by simp
qed

lemma fill_channel:
  assumes "c < ch"
  shows "length (fold (\<lambda>i a. a[i * ch + c := f i]) [0..<m] acc) = length acc"
    and "k < length acc \<Longrightarrow> fold (\<lambda>i a. a[i * ch + c := f i]) [0..<m] acc ! k
      = (if k mod ch = c \<and> k div ch < m then f (k div ch) else acc ! k)"
proof (induction m)
  case 0
  {
    case 1
    show ?case by simp
  next
    case 2
    show ?case by simp
  }
next
  case (Suc m)
  {
    case 1
    show ?case using Suc.IH(1) by simp
  next
    case 2
    then show ?case
      using Suc.IH slot_unique [OF assms, of k m]
      by (auto simp: nth_list_update less_Suc_eq)
  }
qed

lemma interleave_fill:
  assumes "j \<le> ch"
  shows "length (fold (\<lambda>c acc. fold (\<lambda>i a. a[i * ch + c := cd ! c ! i]) [0..<n] acc) [0..<j] acc0)
        = length acc0"
    and "k < length acc0 \<Longrightarrow> k < n * ch \<Longrightarrow>
      fold (\<lambda>c acc. fold (\<lambda>i a. a[i * ch + c := cd ! c ! i]) [0..<n] acc) [0..<j] acc0 ! k
      = (if k mod ch < j then cd ! (k mod ch) ! (k div ch) else acc0 ! k)"
  using assms
proof (induction j)
  case 0
  {
    case 1
    show ?case by simp
  next
    case 2
    show ?case by simp
  }
next
  case (Suc j)
  {
    case 1
    then have "j < ch" "j \<le> ch" by simp_all
    then show ?case using Suc.IH(1) by (simp add: fill_channel(1))
  next
    case 2
    then have j: "j < ch" "j \<le> ch" by simp_all
    have "k div ch < n" using 2 j
      by (simp add: less_mult_imp_div_less)
    then show ?case
      using 2 j Suc.IH by (auto simp: fill_channel less_Suc_eq)
  }
qed

lemma length_interleave: "length (interleave b) = length_buf b * numberOfChannels b"
  unfolding interleave_def by (simp add: interleave_fill(1))

lemma interleave_nth:
  assumes "i < length_buf b" and "c < numberOfChannels b"
  shows "interleave b ! (i * numberOfChannels b + c) = channelData b ! c ! i"
proof -
  let ?ch = "numberOfChannels b"
  have "i * ?ch + c < i * ?ch + ?ch" using assms by simp
  also have "\<dots> = Suc i * ?ch" by simp
  also have "\<dots> \<le> length_buf b * ?ch" using assms(1) by (intro mult_le_mono1) simp
  finally have k: "i * ?ch + c < length_buf b * ?ch" .
  show ?thesis
    unfolding interleave_def using k assms(2)
    by (subst interleave_fill(2)) simp_all
qed


lemma length_sample_bytes:
  "length (concat (map (\<lambda>x. bytes_of_int16 (g x)) xs)) = 2 * length xs"
  by (induction xs) simp_all

lemma sample_bytes_at:
  assumes "k < length xs"
  shows "s16_at (pre @ concat (map (\<lambda>x. bytes_of_int16 (g x)) xs)) (length pre + 2 * k)
    = sint (g (xs ! k))"
proof -
  let ?f = "\<lambda>x. bytes_of_int16 (g x)"
  let ?pre = "pre @ concat (map ?f (take k xs))"
  have "xs = take k xs @ xs ! k # drop (Suc k) xs"
    using assms by (rule id_take_nth_drop)
  then have "concat (map ?f xs)
      = concat (map ?f (take k xs)) @ ?f (xs ! k) @ concat (map ?f (drop (Suc k) xs))"
    by (metis concat.simps(2) concat_append list.simps(9) map_append)
  then have split: "pre @ concat (map ?f xs)
      = ?pre @ bytes_of_int16 (g (xs ! k)) @ concat (map ?f (drop (Suc k) xs))"
    by simp
  have len: "length ?pre = length pre + 2 * k"
    using assms by (simp add: length_sample_bytes)
  show ?thesis
    unfolding split using s16_bytes [of ?pre "g (xs ! k)"] len by simp
qed

lemma audioBufferToWavBlob_bytes:
  "audioBufferToWavBlob b =
     Inr (concat
       [map ucast (js ''RIFF''),
        le32 (length_buf b * numberOfChannels b * 2 + 44 - 8),
        map ucast (js ''WAVE''),
        map ucast (js ''fmt ''),
        le32 16,
        le16 1,
        le16 (numberOfChannels b),
        le32 (sampleRate b),
        le32 (sampleRate b * numberOfChannels b * 2),
        le16 (numberOfChannels b * 2),
        le16 16,
        map ucast (js ''data''),
        le32 (length_buf b * numberOfChannels b * 2)]
      @ concat (map (\<lambda>x. bytes_of_int16 (ToInt16 (scale_sample x))) (interleave b)))"
  (is "_ = Inr (concat ?hdr @ ?samples)")
proof -
  let ?total = "length_buf b * numberOfChannels b * 2 + 44"
  let ?fs = "[writeString (js ''RIFF''), writeUint32 (?total - 8), writeString (js ''WAVE''),
      writeString (js ''fmt ''), writeUint32 16, writeUint16 1, writeUint16 (numberOfChannels b),
      writeUint32 (sampleRate b), writeUint32 (sampleRate b * numberOfChannels b * 2),
      writeUint16 (numberOfChannels b * 2), writeUint16 16, writeString (js ''data''),
      writeUint32 (length_buf b * numberOfChannels b * 2)]"
  let ?sb = "\<lambda>x. bytes_of_int16 (ToInt16 (scale_sample x))"
  have hdr: "list_all2 emits ?fs ?hdr"
    by (simp add: emits_writeString emits_writeUint32 emits_writeUint16)
  have smp: "list_all2 emits (map writeSample (interleave b)) (map ?sb (interleave b))"
    by (simp add: list_all2_map1 list_all2_map2 list_all2_same emits_writeSample)
  have all: "list_all2 emits (?fs @ map writeSample (interleave b)) (?hdr @ map ?sb (interleave b))"
    using hdr smp by (rule list_all2_appendI)
  have len: "length (concat (?hdr @ map ?sb (interleave b))) = ?total"
    by (simp add: length_sample_bytes length_interleave js_def)
  have run: "write_all (?fs @ map writeSample (interleave b)) (replicate ?total 0, 0)
      = Inr (concat (?hdr @ map ?sb (interleave b)), ?total)"
    using write_all_emits [OF all, of 0 "replicate ?total 0"] len by simp
  show ?thesis
    unfolding audioBufferToWavBlob_def Let_def run by simp
qed


lemma length_js [simp]: "length (js s) = length s"
  by (simp add: js_def)

lemma scale_sample_range: "- 32768 \<le> scale_sample x" "scale_sample x < 32768"
  by (auto simp: scale_sample_def Let_def max_def min_def)

lemma sint_scaled: "sint (ToInt16 (scale_sample x)) = js_trunc (scale_sample x)"
  using js_trunc_range [OF scale_sample_range] by (simp add: sint_ToInt16)

text \<open>
  Claim C4. \<^verbatim>\<open>audioBufferToWavBlob\<close> returns \<open>44 + length * channels * 2\<close> bytes; the header
  holds byteRate \<open>= sampleRate * channels * 2\<close> at offset 28, blockAlign \<open>= channels * 2\<close> at
  32, bitsPerSample \<open>= 16\<close> at 34 and dataSize \<open>= length * channels * 2\<close> at 40; the
  samples follow interleaved, little-endian, each clamped to \<open>[-1, 1]\<close>, scaled by 32768
  when negative and by 32767 otherwise, and truncated to an integer. The header fields are
  16 and 32 bits wide, so the three premises say that the values fit their fields.
\<close>

theorem audioBufferToWavBlob_layout:
  assumes "wf_buffer b"
    and "numberOfChannels b * 2 < 65536"
    and "sampleRate b * numberOfChannels b * 2 < 4294967296"
    and "length_buf b * numberOfChannels b * 2 < 4294967296"
  shows "\<exists>bytes. audioBufferToWavBlob b = Inr bytes \<and>
     length bytes = 44 + length_buf b * numberOfChannels b * 2 \<and>
     u32_at bytes 28 = sampleRate b * numberOfChannels b * 2 \<and>
     u16_at bytes 32 = numberOfChannels b * 2 \<and>
     u16_at bytes 34 = 16 \<and>
     u32_at bytes 40 = length_buf b * numberOfChannels b * 2 \<and>
     (\<forall>i < length_buf b. \<forall>c < numberOfChannels b.
        s16_at bytes (44 + 2 * (i * numberOfChannels b + c)) =
          (let s = max (- 1) (min 1 (channelData b ! c ! i))
           in js_trunc (if s < 0 then s * 32768 else s * 32767)))"
proof -
  let ?ch = "numberOfChannels b"
  let ?n = "length_buf b"
  let ?sb = "\<lambda>x. bytes_of_int16 (ToInt16 (scale_sample x))"
  let ?samples = "concat (map ?sb (interleave b))"
  let ?p28 = "map ucast (js ''RIFF'') @ le32 (?n * ?ch * 2 + 44 - 8) @ map ucast (js ''WAVE'')
      @ map ucast (js ''fmt '') @ le32 16 @ le16 1 @ le16 ?ch @ le32 (sampleRate b)"
  let ?p32 = "?p28 @ le32 (sampleRate b * ?ch * 2)"
  let ?p34 = "?p32 @ le16 (?ch * 2)"
  let ?p40 = "?p34 @ le16 16 @ map ucast (js ''data'')"
  let ?p44 = "?p40 @ le32 (?n * ?ch * 2)"
  let ?bytes = "?p44 @ ?samples"
  have bytes: "audioBufferToWavBlob b = Inr ?bytes"
    by (simp add: audioBufferToWavBlob_bytes)
  have l28: "length ?p28 = 28" and l32: "length ?p32 = 32" and l34: "length ?p34 = 34"
    and l40: "length ?p40 = 40" and l44: "length ?p44 = 44"
    by (simp_all add: js_def)
  have len: "length ?bytes = 44 + ?n * ?ch * 2"
    unfolding length_append l44 by (simp add: length_sample_bytes length_interleave)
  have f28: "u32_at ?bytes 28 = sampleRate b * ?ch * 2"
    using u32_le32 [OF assms(3), of ?p28 "le16 (?ch * 2) @ le16 16 @ map ucast (js ''data'')
      @ le32 (?n * ?ch * 2) @ ?samples"] unfolding l28 by simp
  have f32: "u16_at ?bytes 32 = ?ch * 2"
    using u16_le16 [OF assms(2), of ?p32 "le16 16 @ map ucast (js ''data'')
      @ le32 (?n * ?ch * 2) @ ?samples"] unfolding l32 by simp
  have f34: "u16_at ?bytes 34 = 16"
    using u16_le16 [of 16 ?p34 "map ucast (js ''data'') @ le32 (?n * ?ch * 2) @ ?samples"]
    unfolding l34 by simp
  have f40: "u32_at ?bytes 40 = ?n * ?ch * 2"
    using u32_le32 [OF assms(4), of ?p40 ?samples] unfolding l40 by simp
  have smp: "s16_at ?bytes (44 + 2 * (i * ?ch + c)) =
      (let s = max (- 1) (min 1 (channelData b ! c ! i))
       in js_trunc (if s < 0 then s * 32768 else s * 32767))"
    if "i < ?n" "c < ?ch" for i c
  proof -
    have "i * ?ch + c < i * ?ch + ?ch" using that by simp
    also have "\<dots> = Suc i * ?ch" by simp
    also have "\<dots> \<le> ?n * ?ch" using that(1) by (intro mult_le_mono1) simp
    finally have k: "i * ?ch + c < length (interleave b)" by (simp add: length_interleave)
    have "s16_at ?bytes (length ?p44 + 2 * (i * ?ch + c))
        = sint (ToInt16 (scale_sample (interleave b ! (i * ?ch + c))))"
      using k by (rule sample_bytes_at)
    then show ?thesis
      unfolding l44 sint_scaled interleave_nth [OF that]
      by (simp add: scale_sample_def Let_def)
  qed
  show ?thesis
    using bytes len f28 f32 f34 f40 smp by blast
qed

text \<open>
  The buffer of the specification's example: two channels, 24000 Hz, 100 frames.
\<close>

theorem audioBufferToWavBlob_layout_witness:
  "\<exists>bytes. audioBufferToWavBlob \<lparr>sampleRate = 24000, numberOfChannels = 2, length_buf = 100,
       channelData = [replicate 100 (1 / 2), replicate 100 (- 1 / 2)]\<rparr> = Inr bytes \<and>
     length bytes = 444 \<and> u32_at bytes 28 = 96000 \<and> u16_at bytes 32 = 4 \<and>
     u16_at bytes 34 = 16 \<and> u32_at bytes 40 = 400 \<and>
     s16_at bytes 44 = 16383 \<and> s16_at bytes 46 = - 16384"
proof -
  let ?b = "\<lparr>sampleRate = 24000, numberOfChannels = 2, length_buf = 100,
       channelData = [replicate 100 (1 / 2), replicate 100 (- 1 / 2)]\<rparr>"
  have wf: "wf_buffer ?b" by (simp add: wf_buffer_def)
  obtain bytes where b: "audioBufferToWavBlob ?b = Inr bytes"
    "length bytes = 44 + length_buf ?b * numberOfChannels ?b * 2"
    "u32_at bytes 28 = sampleRate ?b * numberOfChannels ?b * 2"
    "u16_at bytes 32 = numberOfChannels ?b * 2"
    "u16_at bytes 34 = 16"
    "u32_at bytes 40 = length_buf ?b * numberOfChannels ?b * 2"
    and smp: "\<forall>i < length_buf ?b. \<forall>c < numberOfChannels ?b.
        s16_at bytes (44 + 2 * (i * numberOfChannels ?b + c)) =
          (let s = max (- 1) (min 1 (channelData ?b ! c ! i))
           in js_trunc (if s < 0 then s * 32768 else s * 32767))"
    using audioBufferToWavBlob_layout [OF wf] by auto
  have "s16_at bytes 44 = 16383"
    using smp [rule_format, of 0 0] by (simp add: js_trunc_def)
  moreover have "s16_at bytes 46 = - 16384"
    using smp [rule_format, of 0 1] by (simp add: js_trunc_def)
  ultimately show ?thesis using b by simp
qed

section \<open>Combiner\<close>

lemma foldl_lengths:
  "foldl (\<lambda>acc buffer. acc + length_buf buffer) a bufs = a + sum_list (map length_buf bufs)"
  by (induction bufs arbitrary: a) simp_all

lemma copy_channels_ok:
  assumes "numberOfChannels target = ch" and "length (channelData target) = ch"
    and "\<forall>c < ch. length (channelData target ! c) = T"
    and "numberOfChannels buffer = ch"
    and "\<forall>c < ch. length (channelData buffer ! c) = n"
    and "offset + n \<le> T" and "set cs \<subseteq> {..<ch}" and "distinct cs"
  shows "copy_channels buffer offset cs target =
    Inr (target\<lparr>channelData :=
      map (\<lambda>c. if c \<in> set cs
                then take offset (channelData target ! c) @ channelData buffer ! c
                     @ drop (offset + n) (channelData target ! c)
                else channelData target ! c) [0..<ch]\<rparr>)"
  using assms(1,2,3,7,8)
proof (induction cs arbitrary: target)
  case Nil
  then have "map (\<lambda>c. channelData target ! c) [0..<ch] = channelData target"
    by (metis map_nth)
  then show ?case by simp
next
  case (Cons channel rest)
  let ?dst = "take offset (channelData target ! channel) @ channelData buffer ! channel
      @ drop (offset + n) (channelData target ! channel)"
  let ?t = "target\<lparr>channelData := (channelData target)[channel := ?dst]\<rparr>"
  have c: "channel < ch" "channel \<notin> set rest" using Cons.prems by simp_all
  have fits: "\<not> length (channelData target ! channel) < offset + length (channelData buffer ! channel)"
    using c Cons.prems assms(5,6) by simp
  have step: "copy_channels buffer offset (channel # rest) target = copy_channels buffer offset rest ?t"
    using c Cons.prems assms(4,5) fits
    by (simp add: getChannelData_def typed_array_set_def)
  have len: "\<forall>k < ch. length (channelData ?t ! k) = T"
    using Cons.prems assms(5,6) c by (auto simp: nth_list_update)
  have ih: "copy_channels buffer offset rest ?t =
    Inr (?t\<lparr>channelData :=
      map (\<lambda>k. if k \<in> set rest
                then take offset (channelData ?t ! k) @ channelData buffer ! k
                     @ drop (offset + n) (channelData ?t ! k)
                else channelData ?t ! k) [0..<ch]\<rparr>)"
    using Cons.prems len by (intro Cons.IH) simp_all
  have "map (\<lambda>k. if k \<in> set rest
                then take offset (channelData ?t ! k) @ channelData buffer ! k
                     @ drop (offset + n) (channelData ?t ! k)
                else channelData ?t ! k) [0..<ch]
      = map (\<lambda>k. if k \<in> set (channel # rest)
                then take offset (channelData target ! k) @ channelData buffer ! k
                     @ drop (offset + n) (channelData target ! k)
                else channelData target ! k) [0..<ch]"
    using c Cons.prems(2) by (auto simp: nth_list_update)
  then show ?case unfolding step ih by simp
qed


lemma concat_loop_ok:
  assumes "numberOfChannels target = ch" and "length (channelData target) = ch"
    and "\<forall>c < ch. length (channelData target ! c) = T"
    and "\<forall>b \<in> set bufs. numberOfChannels b = ch \<and>
           (\<forall>c < ch. length (channelData b ! c) = length_buf b)"
    and "offset + sum_list (map length_buf bufs) \<le> T"
  shows "concat_loop bufs offset target =
    Inr (target\<lparr>channelData :=
      map (\<lambda>c. take offset (channelData target ! c)
                @ concat (map (\<lambda>b. channelData b ! c) bufs)
                @ drop (offset + sum_list (map length_buf bufs)) (channelData target ! c))
        [0..<ch]\<rparr>)"
  using assms
proof (induction bufs arbitrary: offset target)
  case Nil
  have "map (\<lambda>c. channelData target ! c) [0..<ch] = channelData target"
    using Nil.prems(2) by (metis map_nth)
  then show ?case by simp
next
  case (Cons buffer rest)
  let ?n = "length_buf buffer"
  let ?cd = "map (\<lambda>c. take offset (channelData target ! c) @ channelData buffer ! c
                @ drop (offset + ?n) (channelData target ! c)) [0..<ch]"
  let ?t = "target\<lparr>channelData := ?cd\<rparr>"
  have b: "numberOfChannels buffer = ch" "\<forall>c < ch. length (channelData buffer ! c) = ?n"
    using Cons.prems(4) by simp_all
  have fits: "offset + ?n \<le> T" using Cons.prems(5) by simp
  have "copy_channels buffer offset [0..<ch] target =
    Inr (target\<lparr>channelData :=
      map (\<lambda>c. if c \<in> set [0..<ch]
                then take offset (channelData target ! c) @ channelData buffer ! c
                     @ drop (offset + ?n) (channelData target ! c)
                else channelData target ! c) [0..<ch]\<rparr>)"
    using Cons.prems(1,2,3) b fits by (intro copy_channels_ok) auto
  then have step: "copy_channels buffer offset [0..<numberOfChannels buffer] target = Inr ?t"
    unfolding b(1) by (simp cong: map_cong)
  have len: "\<forall>c < ch. length (channelData ?t ! c) = T"
    using Cons.prems(3) b fits by simp
  have ih: "concat_loop rest (offset + ?n) ?t =
    Inr (?t\<lparr>channelData :=
      map (\<lambda>c. take (offset + ?n) (channelData ?t ! c)
                @ concat (map (\<lambda>b. channelData b ! c) rest)
                @ drop (offset + ?n + sum_list (map length_buf rest)) (channelData ?t ! c))
        [0..<ch]\<rparr>)"
    using Cons.prems len by (intro Cons.IH) (simp_all add: add.assoc)
  have "map (\<lambda>c. take (offset + ?n) (channelData ?t ! c)
                @ concat (map (\<lambda>b. channelData b ! c) rest)
                @ drop (offset + ?n + sum_list (map length_buf rest)) (channelData ?t ! c))
        [0..<ch]
      = map (\<lambda>c. take offset (channelData target ! c)
                @ concat (map (\<lambda>b. channelData b ! c) (buffer # rest))
                @ drop (offset + sum_list (map length_buf (buffer # rest))) (channelData target ! c))
        [0..<ch]"
  proof (rule map_cong [OF refl])
    fix c
    assume "c \<in> set [0..<ch]"
    then have c: "c < ch" by simp
    have lt: "length (channelData target ! c) = T" and lb: "length (channelData buffer ! c) = ?n"
      using c Cons.prems(3) b by simp_all
    have "offset \<le> length (channelData target ! c)" using lt fits by simp
    then show "take (offset + ?n) (channelData ?t ! c)
                @ concat (map (\<lambda>b. channelData b ! c) rest)
                @ drop (offset + ?n + sum_list (map length_buf rest)) (channelData ?t ! c)
      = take offset (channelData target ! c)
                @ concat (map (\<lambda>b. channelData b ! c) (buffer # rest))
                @ drop (offset + sum_list (map length_buf (buffer # rest))) (channelData target ! c)"
      using c lb lt fits by (simp add: add.assoc add.commute)
  qed
  then show ?case
    unfolding concat_loop.simps step sum.case ih by simp
qed


lemma wf_buffer_channels:
  assumes "wf_buffer b"
  shows "length (channelData b) = numberOfChannels b"
    and "\<forall>c < numberOfChannels b. length (channelData b ! c) = length_buf b"
  using assms by (simp_all add: wf_buffer_def list_all_length)

text \<open>
  Claim C9. For a non-empty list of chunks whose buffers share channel count and sample
  rate, the Combiner yields one buffer whose length is the sum of the input lengths and
  whose every channel is the inputs' channels laid end to end in input order.
\<close>

theorem combinedBuffer_concatenates:
  assumes "chunks \<noteq> []"
    and "\<forall>b \<in> set (map audioBuffer chunks).
           wf_buffer b \<and> numberOfChannels b = ch \<and> sampleRate b = rate"
  shows "\<exists>cb. combinedBuffer chunks = Inr cb \<and>
     numberOfChannels cb = ch \<and> sampleRate cb = rate \<and>
     length_buf cb = sum_list (map (\<lambda>k. length_buf (audioBuffer k)) chunks) \<and>
     length (channelData cb) = ch \<and>
     (\<forall>c < ch. channelData cb ! c = concat (map (\<lambda>k. channelData (audioBuffer k) ! c) chunks))"
proof (cases "1 < length chunks")
  case False
  then obtain k where k: "chunks = [k]"
    using assms(1) by (cases chunks) auto
  then have "wf_buffer (audioBuffer k)" "numberOfChannels (audioBuffer k) = ch"
    "sampleRate (audioBuffer k) = rate"
    using assms(2) by simp_all
  then show ?thesis
    using wf_buffer_channels(1) [of "audioBuffer k"] by (simp add: combinedBuffer_def k)
next
  case True
  let ?bufs = "map audioBuffer chunks"
  let ?total = "sum_list (map length_buf ?bufs)"
  obtain k rest where kr: "chunks = k # rest" using assms(1) by (cases chunks) auto
  have first: "wf_buffer (audioBuffer k)" "numberOfChannels (?bufs ! 0) = ch"
    "sampleRate (?bufs ! 0) = rate"
    using assms(2) by (simp_all add: kr)
  have "numberOfChannels (audioBuffer k) = ch" "sampleRate (audioBuffer k) = rate"
    using first(2,3) by (simp_all add: kr)
  then have pos: "0 < ch" "0 < rate" "0 < ?total"
    using first(1) by (simp_all add: wf_buffer_def kr)
  let ?target = "\<lparr>sampleRate = rate, numberOfChannels = ch, length_buf = ?total,
      channelData = replicate ch (replicate ?total 0)\<rparr>"
  have "\<not> (ch = 0 \<or> ?total = 0 \<or> rate = 0)"
    using pos by linarith
  then have create: "createBuffer ch ?total rate = Inr ?target"
    unfolding createBuffer_def by (rule if_not_P)
  have bufs: "\<forall>b \<in> set ?bufs. numberOfChannels b = ch \<and>
      (\<forall>c < ch. length (channelData b ! c) = length_buf b)"
  proof (intro ballI conjI)
    fix b
    assume "b \<in> set ?bufs"
    with assms(2) have w: "wf_buffer b" "numberOfChannels b = ch" by blast+
    show "numberOfChannels b = ch" by (rule w(2))
    show "\<forall>c < ch. length (channelData b ! c) = length_buf b"
      using wf_buffer_channels(2) [OF w(1)] w(2) by simp
  qed
  have loop: "concat_loop ?bufs 0 ?target =
    Inr (?target\<lparr>channelData :=
      map (\<lambda>c. take 0 (channelData ?target ! c)
                @ concat (map (\<lambda>b. channelData b ! c) ?bufs)
                @ drop (0 + ?total) (channelData ?target ! c))
        [0..<ch]\<rparr>)"
    using bufs by (intro concat_loop_ok [where T = "?total"]) simp_all
  have "combinedBuffer chunks = concat_loop ?bufs 0 ?target"
    using True first(2,3)
    by (simp add: combinedBuffer_def Let_def foldl_lengths create del: map_map)
  then show ?thesis
    unfolding loop by (simp add: o_def)
qed



text \<open>The specification's example: inputs of 100, 50 and 200 frames.\<close>

theorem combinedBuffer_concatenates_witness:
  "\<exists>cb. combinedBuffer
      [\<lparr>chunk_id = js ''a'', chunk_text = js ''One.'', audioBuffer =
          \<lparr>sampleRate = 24000, numberOfChannels = 1, length_buf = 100,
           channelData = [replicate 100 (1 / 2)]\<rparr>\<rparr>,
       \<lparr>chunk_id = js ''b'', chunk_text = js ''Two.'', audioBuffer =
          \<lparr>sampleRate = 24000, numberOfChannels = 1, length_buf = 50,
           channelData = [replicate 50 (- 1)]\<rparr>\<rparr>,
       \<lparr>chunk_id = js ''c'', chunk_text = js ''Three.'', audioBuffer =
          \<lparr>sampleRate = 24000, numberOfChannels = 1, length_buf = 200,
           channelData = [replicate 200 (1 / 4)]\<rparr>\<rparr>] = Inr cb \<and>
     length_buf cb = 350 \<and>
     channelData cb ! 0 = replicate 100 (1 / 2) @ replicate 50 (- 1) @ replicate 200 (1 / 4)"
proof -
  let ?chunks = "[\<lparr>chunk_id = js ''a'', chunk_text = js ''One.'', audioBuffer =
          \<lparr>sampleRate = 24000, numberOfChannels = 1, length_buf = 100,
           channelData = [replicate 100 (1 / 2)]\<rparr>\<rparr>,
       \<lparr>chunk_id = js ''b'', chunk_text = js ''Two.'', audioBuffer =
          \<lparr>sampleRate = 24000, numberOfChannels = 1, length_buf = 50,
           channelData = [replicate 50 (- 1)]\<rparr>\<rparr>,
       \<lparr>chunk_id = js ''c'', chunk_text = js ''Three.'', audioBuffer =
          \<lparr>sampleRate = 24000, numberOfChannels = 1, length_buf = 200,
           channelData = [replicate 200 (1 / 4 :: real)]\<rparr>\<rparr>]"
  have nonempty: "?chunks \<noteq> []" by simp
  have inputs: "\<forall>b \<in> set (map audioBuffer ?chunks).
      wf_buffer b \<and> numberOfChannels b = 1 \<and> sampleRate b = 24000"
    by (simp add: wf_buffer_def)
  from combinedBuffer_concatenates [OF nonempty inputs]
  obtain cb where cb: "combinedBuffer ?chunks = Inr cb"
    "length_buf cb = sum_list (map (\<lambda>k. length_buf (audioBuffer k)) ?chunks)"
    "\<forall>c < 1. channelData cb ! c = concat (map (\<lambda>k. channelData (audioBuffer k) ! c) ?chunks)"
    by blast
  have "length_buf cb = 350" using cb(2) by simp
  moreover have "channelData cb ! 0
      = replicate 100 (1 / 2) @ replicate 50 (- 1) @ replicate 200 (1 / 4)"
    using cb(3) by simp
  ultimately show ?thesis using cb(1) by blast
qed

section \<open>Streaming playback queue\<close>

lemma duration_nonneg: "0 \<le> duration b"
  by (simp add: duration_def)

text \<open>
  In a render where the session is active, \<^verbatim>\<open>playQueuedAudio\<close> starts the head of the
  queue at the maximum of the end-time cursor and the clock and moves the cursor to that
  start plus the buffer's duration.
\<close>

lemma playQueuedAudio_schedules:
  assumes "audioQueue st = b # rest"
  shows "starts (playQueuedAudio True t st) = starts st @ [(b, max (nextStartTime st) t)]"
    and "nextStartTime (playQueuedAudio True t st) = max (nextStartTime st) t + duration b"
    and "audioQueue (playQueuedAudio True t st) = rest"
  using assms by (simp_all add: playQueuedAudio_def starts_def Let_def)

text \<open>In a render where the session is not active it returns at its first line.\<close>

lemma playQueuedAudio_inactive: "playQueuedAudio False t st = st"
  by (simp add: playQueuedAudio_def)

lemma handleLiveAudioChunk_inactive:
  "handleLiveAudioChunk False t b st = st\<lparr>audioQueue := audioQueue st @ [b]\<rparr>"
  by (simp add: handleLiveAudioChunk_def playQueuedAudio_inactive Let_def)

text \<open>
  A chunk that arrives while the first buffer is playing is only queued. It is started by
  the first node's \<^verbatim>\<open>onended\<close>, at the maximum of the first buffer's end and the clock read
  there: at that clock whenever the event is handled after the buffer's end.
\<close>

lemma onended_starts_next:
  fixes st :: playback and b1 b2 :: audio_buffer and t1 t2 te :: real
  defines "s1 \<equiv> max (nextStartTime st) t1"
  assumes "audioQueue st = []" and "audioSourceNodes st = []" and "t2 < s1 + duration b1"
  shows "starts (handleLiveAudioChunk True t2 b2 (handleLiveAudioChunk True t1 b1 st))
      = starts st @ [(b1, s1)]"
    and "audioQueue (handleLiveAudioChunk True t2 b2 (handleLiveAudioChunk True t1 b1 st)) = [b2]"
    and "starts (onended True te (last (scheduled (handleLiveAudioChunk True t1 b1 st)))
          (handleLiveAudioChunk True t2 b2 (handleLiveAudioChunk True t1 b1 st)))
      = starts st @ [(b1, s1), (b2, max (s1 + duration b1) te)]"
  using assms(2-4)
  by (simp_all add: playQueuedAudio_def handleLiveAudioChunk_def onended_def starts_def Let_def
      s1_def)

text \<open>
  The button starts a session only in a render where \<^verbatim>\<open>isLiveActive\<close> is false, so the
  callback the session holds is the one of such a render: whatever chunks arrive, each is
  appended to the queue and none is ever started.
\<close>

lemma live_audio_queued:
  assumes "session_onAudioChunk p = Some (handleLiveAudioChunk False)"
  shows "session_onAudioChunk (fold (\<lambda>(t, b). live_audio t b) chunks p)
      = Some (handleLiveAudioChunk False)"
    and "starts (panel_refs (fold (\<lambda>(t, b). live_audio t b) chunks p)) = starts (panel_refs p)"
    and "audioQueue (panel_refs (fold (\<lambda>(t, b). live_audio t b) chunks p))
      = audioQueue (panel_refs p) @ map snd chunks"
  using assms
  by (induction chunks arbitrary: p)
    (simp_all add: live_audio_def handleLiveAudioChunk_inactive starts_def split: prod.splits)

lemma button_onClick_registers:
  assumes "\<not> panel_isLiveActive p"
  shows "session_onAudioChunk (button_onClick None p) = Some (handleLiveAudioChunk False)"
    and "panel_isLiveActive (button_onClick None p)"
    and "audioQueue (panel_refs (button_onClick None p)) = []"
    and "starts (panel_refs (button_onClick None p)) = starts (panel_refs p)"
  using assms
  by (simp_all add: button_onClick_def startLiveSession_def clear_refs_def starts_def Let_def)

lemma live_session_never_plays:
  assumes "\<not> panel_isLiveActive p"
  shows "starts (panel_refs (fold (\<lambda>(t, b). live_audio t b) chunks (button_onClick None p)))
      = starts (panel_refs p)"
    and "audioQueue (panel_refs (fold (\<lambda>(t, b). live_audio t b) chunks (button_onClick None p)))
      = map snd chunks"
  using live_audio_queued [OF button_onClick_registers(1) [OF assms], of chunks]
    button_onClick_registers [OF assms]
  by simp_all

text \<open>
  Claim C5. The claim fails on the panel. A two-second buffer arrives at clock 3 and a
  half-second buffer at clock 4, after the button has started the session from the initial
  panel. The session's callback holds \<^verbatim>\<open>isLiveActive = false\<close>, so both buffers stay in the
  queue and neither is started. In a render that holds \<^verbatim>\<open>isLiveActive = true\<close> the first
  buffer starts at 3 and ends at 5; the second, arriving mid-playback, waits for the
  \<^verbatim>\<open>ended\<close> event of the first, and when that is handled at clock 5.1 it starts at 5.1,
  a tenth of a second after the first one's end, not at 5.
\<close>

theorem streaming_queue_gap:
  "panel_isLiveActive (button_onClick None initial_panel) \<and>
   starts (panel_refs
      (live_audio 4 \<lparr>sampleRate = 24000, numberOfChannels = 1, length_buf = 12000,
           channelData = [replicate 12000 0]\<rparr>
        (live_audio 3 \<lparr>sampleRate = 24000, numberOfChannels = 1, length_buf = 48000,
             channelData = [replicate 48000 0]\<rparr>
          (button_onClick None initial_panel)))) = [] \<and>
   audioQueue (panel_refs
      (live_audio 4 \<lparr>sampleRate = 24000, numberOfChannels = 1, length_buf = 12000,
           channelData = [replicate 12000 0]\<rparr>
        (live_audio 3 \<lparr>sampleRate = 24000, numberOfChannels = 1, length_buf = 48000,
             channelData = [replicate 48000 0]\<rparr>
          (button_onClick None initial_panel))))
     = [\<lparr>sampleRate = 24000, numberOfChannels = 1, length_buf = 48000,
          channelData = [replicate 48000 0]\<rparr>,
        \<lparr>sampleRate = 24000, numberOfChannels = 1, length_buf = 12000,
          channelData = [replicate 12000 0]\<rparr>] \<and>
   duration \<lparr>sampleRate = 24000, numberOfChannels = 1, length_buf = 48000,
       channelData = [replicate 48000 0]\<rparr> = 2 \<and>
   starts (onended True (51 / 10)
      \<lparr>node_id = 0, node_buffer = \<lparr>sampleRate = 24000, numberOfChannels = 1,
          length_buf = 48000, channelData = [replicate 48000 0]\<rparr>, start_time = 3\<rparr>
      (handleLiveAudioChunk True 4
         \<lparr>sampleRate = 24000, numberOfChannels = 1, length_buf = 12000,
          channelData = [replicate 12000 0]\<rparr>
         (handleLiveAudioChunk True 3
            \<lparr>sampleRate = 24000, numberOfChannels = 1, length_buf = 48000,
             channelData = [replicate 48000 0]\<rparr>
            (panel_refs initial_panel))))
     = [(\<lparr>sampleRate = 24000, numberOfChannels = 1, length_buf = 48000,
          channelData = [replicate 48000 0]\<rparr>, 3),
        (\<lparr>sampleRate = 24000, numberOfChannels = 1, length_buf = 12000,
          channelData = [replicate 12000 0]\<rparr>, 51 / 10)]"
proof -
  let ?b1 = "\<lparr>sampleRate = 24000, numberOfChannels = 1, length_buf = 48000,
           channelData = [replicate 48000 0]\<rparr>"
  let ?b2 = "\<lparr>sampleRate = 24000, numberOfChannels = 1, length_buf = 12000,
           channelData = [replicate 12000 0]\<rparr>"
  let ?idle = "panel_refs initial_panel"
  have idle: "\<not> panel_isLiveActive initial_panel" "audioQueue ?idle = []"
    "audioSourceNodes ?idle = []" "nextStartTime ?idle = 0" "starts ?idle = []"
    "scheduled ?idle = []"
    by (simp_all add: initial_panel_def starts_def)
  have d1: "duration ?b1 = 2"
    by (simp add: duration_def)
  have active: "panel_isLiveActive (button_onClick None initial_panel)"
    using idle(1) by (rule button_onClick_registers(2))
  have "starts (panel_refs (fold (\<lambda>(t, b). live_audio t b) [(3, ?b1), (4, ?b2)]
      (button_onClick None initial_panel))) = []"
    and "audioQueue (panel_refs (fold (\<lambda>(t, b). live_audio t b) [(3, ?b1), (4, ?b2)]
      (button_onClick None initial_panel))) = [?b1, ?b2]"
    using live_session_never_plays [OF idle(1), of "[(3, ?b1), (4, ?b2)]"] idle(5)
    by simp_all
  then have silent: "starts (panel_refs (live_audio 4 ?b2 (live_audio 3 ?b1
        (button_onClick None initial_panel)))) = []"
    and queued: "audioQueue (panel_refs (live_audio 4 ?b2 (live_audio 3 ?b1
        (button_onClick None initial_panel)))) = [?b1, ?b2]"
    by simp_all
  have first: "last (scheduled (handleLiveAudioChunk True 3 ?b1 ?idle))
      = \<lparr>node_id = 0, node_buffer = ?b1, start_time = 3\<rparr>"
    using idle by (simp add: handleLiveAudioChunk_def playQueuedAudio_def Let_def)
  have "starts (onended True (51 / 10) (last (scheduled (handleLiveAudioChunk True 3 ?b1 ?idle)))
      (handleLiveAudioChunk True 4 ?b2 (handleLiveAudioChunk True 3 ?b1 ?idle)))
      = starts ?idle @ [(?b1, max (nextStartTime ?idle) 3),
          (?b2, max (max (nextStartTime ?idle) 3 + duration ?b1) (51 / 10))]"
    using idle(2,3) by (rule onended_starts_next(3)) (simp add: idle(4) duration_def)
  then have gap: "starts (onended True (51 / 10) \<lparr>node_id = 0, node_buffer = ?b1, start_time = 3\<rparr>
      (handleLiveAudioChunk True 4 ?b2 (handleLiveAudioChunk True 3 ?b1 ?idle)))
      = [(?b1, 3), (?b2, 51 / 10)]"
    unfolding first by (simp add: idle(4,5) duration_def)
  from active silent queued d1 gap show ?thesis by (intro conjI)
qed
section \<open>Batch synthesis\<close>

lemma complete_segment_count:
  "processedCount (complete_segment cb n uuid seg r i st) = Suc (processedCount st)"
  "progress_calls (complete_segment cb n uuid seg r i st)
     = progress_calls st @ (if cb then [(Suc (processedCount st), n)] else [])"
  by (simp_all add: complete_segment_def count_and_report_def resolve_def reject_def Let_def
      split: sum.splits option.splits)

lemma fold_complete_count:
  "processedCount (fold (\<lambda>i. complete_segment cb n uuid (segs ! i) (respond i) i) order st)
     = processedCount st + length order"
  "progress_calls (fold (\<lambda>i. complete_segment cb n uuid (segs ! i) (respond i) i) order st)
     = progress_calls st
       @ (if cb then map (\<lambda>k. (k, n)) [Suc (processedCount st)..<Suc (processedCount st + length order)]
          else [])"
proof (induction order arbitrary: st)
  case Nil
  {
    case 1
    show ?case by simp
  next
    case 2
    show ?case by simp
  }
next
  case (Cons i order)
  {
    case 1
    show ?case by (simp add: Cons.IH(1) complete_segment_count)
  next
    case 2
    show ?case
      by (simp add: Cons.IH complete_segment_count upt_conv_Cons del: upt_Suc)
  }
qed

lemma complete_segment_settled:
  "length (settled (complete_segment cb n uuid seg r i st)) = length (settled st)"
  "j \<noteq> i \<Longrightarrow> settled (complete_segment cb n uuid seg r i st) ! j = settled st ! j"
  by (simp_all add: complete_segment_def count_and_report_def resolve_def reject_def Let_def
      split: sum.splits option.splits)

lemma complete_segment_failed:
  assumes "trim seg \<noteq> []" and "synthesize r = Inl e"
  shows "rejection (complete_segment cb n uuid seg r i st)
     = (case rejection st of None \<Rightarrow> Some e | Some e' \<Rightarrow> Some e')"
  using assms
  by (simp add: complete_segment_def count_and_report_def reject_def split: option.splits)

lemma complete_segment_resolved:
  assumes "trim seg \<noteq> []" and "synthesize r = Inr v" and "i < length (settled st)"
  shows "rejection (complete_segment cb n uuid seg r i st) = rejection st"
    and "\<exists>c. settled (complete_segment cb n uuid seg r i st) ! i = Some (i, c) \<and>
           map_option (\<lambda>c. (chunk_text c, audioBuffer c)) c = map_option (\<lambda>b. (trim seg, b)) v"
  using assms
  by (simp_all add: complete_segment_def count_and_report_def resolve_def Let_def
      split: option.splits)

lemma complete_segment_rejection_kept:
  "rejection st = Some e \<Longrightarrow> rejection (complete_segment cb n uuid seg r i st) = Some e"
  by (simp add: complete_segment_def count_and_report_def resolve_def reject_def Let_def
      split: sum.splits option.splits)


lemma fold_complete_untouched:
  "length (settled (fold (\<lambda>i. complete_segment cb n uuid (segs ! i) (respond i) i) order st))
     = length (settled st)"
  "j \<notin> set order \<Longrightarrow>
   settled (fold (\<lambda>i. complete_segment cb n uuid (segs ! i) (respond i) i) order st) ! j
     = settled st ! j"
  by (induction order arbitrary: st) (simp_all add: complete_segment_settled)

lemma fold_complete_rejection_kept:
  "rejection st = Some e \<Longrightarrow>
   rejection (fold (\<lambda>i. complete_segment cb n uuid (segs ! i) (respond i) i) order st) = Some e"
  by (induction order arbitrary: st) (simp_all add: complete_segment_rejection_kept)

lemma fold_complete_rejected:
  assumes "\<forall>s \<in> set segs. trim s \<noteq> []" and "set order \<subseteq> {0..<length segs}"
    and "length (settled st) = length segs" and "rejection st = None"
    and "\<exists>i \<in> set order. isl (synthesize (respond i))"
  shows "\<exists>j e. j \<in> set order \<and> synthesize (respond j) = Inl e \<and>
    rejection (fold (\<lambda>i. complete_segment cb n uuid (segs ! i) (respond i) i) order st) = Some e"
  using assms(2-5)
proof (induction order arbitrary: st)
  case Nil
  then show ?case by simp
next
  case (Cons h order)
  let ?st = "complete_segment cb n uuid (segs ! h) (respond h) h st"
  have h: "h < length segs" using Cons.prems by simp
  then have tr: "trim (segs ! h) \<noteq> []" using assms(1) by simp
  show ?case
  proof (cases "synthesize (respond h)")
    case (Inl e)
    have "rejection ?st = Some e"
      using complete_segment_failed [OF tr Inl] Cons.prems(3) by simp
    then have "rejection (fold (\<lambda>i. complete_segment cb n uuid (segs ! i) (respond i) i)
        (h # order) st) = Some e"
      by (simp add: fold_complete_rejection_kept)
    with Inl show ?thesis by auto
  next
    case (Inr v)
    have "rejection ?st = None"
      using complete_segment_resolved(1) [OF tr Inr] h Cons.prems(2,3) by simp
    moreover have "length (settled ?st) = length segs"
      using Cons.prems(2) by (simp add: complete_segment_settled)
    moreover have "\<exists>i \<in> set order. isl (synthesize (respond i))"
      using Cons.prems(4) Inr by auto
    moreover have "set order \<subseteq> {0..<length segs}" using Cons.prems(1) by simp
    ultimately obtain j e where "j \<in> set order" "synthesize (respond j) = Inl e"
      "rejection (fold (\<lambda>i. complete_segment cb n uuid (segs ! i) (respond i) i) order ?st)
         = Some e"
      using Cons.IH by blast
    then show ?thesis by auto
  qed
qed

lemma fold_complete_clean:
  assumes "\<forall>s \<in> set segs. trim s \<noteq> []" and "set order \<subseteq> {0..<length segs}"
    and "length (settled st) = length segs" and "rejection st = None"
    and "\<forall>i \<in> set order. \<not> isl (synthesize (respond i))"
  shows "rejection (fold (\<lambda>i. complete_segment cb n uuid (segs ! i) (respond i) i) order st) = None"
  using assms(2-5)
proof (induction order arbitrary: st)
  case Nil
  then show ?case by simp
next
  case (Cons h order)
  let ?st = "complete_segment cb n uuid (segs ! h) (respond h) h st"
  have h: "h < length segs" using Cons.prems by simp
  then have tr: "trim (segs ! h) \<noteq> []" using assms(1) by simp
  obtain v where v: "synthesize (respond h) = Inr v"
    using Cons.prems(4) by (cases "synthesize (respond h)") auto
  have "rejection ?st = None"
    using complete_segment_resolved(1) [OF tr v] h Cons.prems(2,3) by simp
  moreover have "length (settled ?st) = length segs"
    using Cons.prems(2) by (simp add: complete_segment_settled)
  ultimately show ?case using Cons.IH [of ?st] Cons.prems(1,4) by simp
qed

lemma fold_complete_resolved:
  assumes "\<forall>s \<in> set segs. trim s \<noteq> []" and "set order \<subseteq> {0..<length segs}"
    and "distinct order" and "length (settled st) = length segs"
    and "i \<in> set order" and "synthesize (respond i) = Inr v"
  shows "\<exists>c. settled (fold (\<lambda>i. complete_segment cb n uuid (segs ! i) (respond i) i) order st) ! i
        = Some (i, c) \<and>
      map_option (\<lambda>c. (chunk_text c, audioBuffer c)) c = map_option (\<lambda>b. (trim (segs ! i), b)) v"
  using assms(2-5)
proof (induction order arbitrary: st)
  case Nil
  then show ?case by simp
next
  case (Cons h order)
  let ?st = "complete_segment cb n uuid (segs ! h) (respond h) h st"
  have len: "length (settled ?st) = length segs"
    using Cons.prems(3) by (simp add: complete_segment_settled)
  show ?case
  proof (cases "h = i")
    case True
    have i: "i < length segs" using Cons.prems(1) True by simp
    then have tr: "trim (segs ! i) \<noteq> []" using assms(1) by simp
    have "i \<notin> set order" using Cons.prems(2) True by simp
    then have "settled (fold (\<lambda>i. complete_segment cb n uuid (segs ! i) (respond i) i)
        (h # order) st) ! i = settled ?st ! i"
      by (simp add: fold_complete_untouched)
    then show ?thesis
      using complete_segment_resolved(2) [OF tr assms(6), of i st cb n uuid] i Cons.prems(3) True
      by simp
  next
    case False
    then have "i \<in> set order" using Cons.prems(4) by simp
    then show ?thesis
      using Cons.IH [of ?st] Cons.prems(1,2) len by simp
  qed
qed

lemma chunks_of_results:
  "list_all2 (\<lambda>r i. E i = map_option k (snd r)) xs is \<Longrightarrow>
   map (\<lambda>r. k (the (snd r))) (filter (\<lambda>r. snd r \<noteq> None) xs) = List.map_filter E is"
  by (induction xs "is" rule: list_all2_induct) (auto simp: map_filter_simps)

lemma trim_scriptSegments: "\<forall>s \<in> set (scriptSegments options). trim s \<noteq> []"
  by (simp add: scriptSegments_def)


lemma sort_results:
  assumes "map fst xs = [0..<n]"
  shows "sort_key fst (filter P xs) = filter P xs"
proof -
  have "sorted (map fst xs)" unfolding assms by simp
  then have "sorted (map fst (filter P xs))" by (rule sorted_filter)
  then show ?thesis by (rule sort_key_id_if_sorted)
qed

lemma generateSpeech_run:
  assumes "getGenAI api_key = Inr ()"
    and "\<not> (speakerMode options = Multi \<and> validSpeakerConfigs options = [])"
  shows "generateSpeech api_key uuid options respond order =
    (let segments = scriptSegments options;
         st = fold (\<lambda>i. complete_segment (onProgress options) (length segments) uuid
                          (segments ! i) (respond i) i)
                order
                \<lparr>processedCount = 0,
                 progress_calls = (if onProgress options then [(0, length segments)] else []),
                 uuids_drawn = 0, settled = replicate (length segments) None,
                 rejection = None\<rparr>
     in \<lparr>progress = progress_calls st,
         outcome = (case rejection st of
                      Some e \<Rightarrow> Inl e
                    | None \<Rightarrow>
                        Inr (map (\<lambda>res. the (snd res))
                               (sort_key fst (filter (\<lambda>res. snd res \<noteq> None)
                                                (map the (settled st))))))\<rparr>)"
proof -
  have c: "(speakerMode options = Multi \<and> validSpeakerConfigs options = []) = False"
    using assms(2) by simp
  show ?thesis
    unfolding generateSpeech_def Let_def assms(1) c by simp
qed

lemma generateSpeech_Inr_run:
  assumes "outcome (generateSpeech api_key uuid options respond order) = Inr chunks"
  shows "getGenAI api_key = Inr ()"
    and "\<not> (speakerMode options = Multi \<and> validSpeakerConfigs options = [])"
  using assms by (auto simp: generateSpeech_def Let_def split: sum.splits if_splits)


lemma generateSpeech_in_order:
  assumes "distinct order" and "set order = {0..<length (scriptSegments options)}"
    and "outcome (generateSpeech api_key uuid options respond order) = Inr chunks"
  shows "map (\<lambda>c. (chunk_text c, audioBuffer c)) chunks = expected_chunks options respond"
proof -
  let ?segs = "scriptSegments options"
  let ?n = "length ?segs"
  let ?k = "\<lambda>c. (chunk_text c, audioBuffer c)"
  let ?E = "\<lambda>i. case synthesize (respond i) of
               Inr (Some buffer) \<Rightarrow> Some (trim (?segs ! i), buffer) | _ \<Rightarrow> None"
  let ?init = "\<lparr>processedCount = 0,
      progress_calls = (if onProgress options then [(0, ?n)] else []),
      uuids_drawn = 0, settled = replicate ?n None, rejection = None\<rparr>"
  let ?st = "fold (\<lambda>i. complete_segment (onProgress options) ?n uuid (?segs ! i) (respond i) i)
      order ?init"
  let ?xs = "map the (settled ?st)"
  note run = generateSpeech_run [OF generateSpeech_Inr_run [OF assms(3)], of uuid respond order]
  have out: "(case rejection ?st of Some e \<Rightarrow> Inl e
      | None \<Rightarrow> Inr (map (\<lambda>res. the (snd res))
          (sort_key fst (filter (\<lambda>res. snd res \<noteq> None) ?xs)))) = Inr chunks"
    using assms(3) unfolding run Let_def by simp
  then have clean: "rejection ?st = None"
    by (cases "rejection ?st") simp_all
  have chunks: "chunks = map (\<lambda>res. the (snd res))
      (sort_key fst (filter (\<lambda>res. snd res \<noteq> None) ?xs))"
    using out unfolding clean by simp
  have sub: "set order \<subseteq> {0..<?n}" using assms(2) by simp
  have ok: "\<not> isl (synthesize (respond i))" if "i < ?n" for i
  proof
    assume "isl (synthesize (respond i))"
    then have "\<exists>i \<in> set order. isl (synthesize (respond i))"
      using that assms(2) by auto
    from fold_complete_rejected [OF trim_scriptSegments sub _ _ this, where st = ?init and cb = "onProgress options" and n = ?n and uuid = uuid]
    show False using clean by simp
  qed
  have len: "length (settled ?st) = ?n"
    by (simp add: fold_complete_untouched(1))
  have slot: "\<exists>c. settled ?st ! i = Some (i, c) \<and> ?E i = map_option ?k c"
    if i: "i < ?n" for i
  proof -
    obtain v where v: "synthesize (respond i) = Inr v"
      using ok [OF i] by (cases "synthesize (respond i)") auto
    have "i \<in> set order" using i assms(2) by simp
    have "\<exists>c. settled ?st ! i = Some (i, c) \<and>
        map_option ?k c = map_option (\<lambda>b. (trim (?segs ! i), b)) v"
      using trim_scriptSegments sub assms(1) \<open>i \<in> set order\<close> v
      by (intro fold_complete_resolved) simp_all
    then obtain c where "settled ?st ! i = Some (i, c)"
      "map_option ?k c = map_option (\<lambda>b. (trim (?segs ! i), b)) v"
      by auto
    then show ?thesis using v by (cases v) auto
  qed
  have fsts: "map fst ?xs = [0..<?n]"
  proof (rule nth_equalityI)
    show "length (map fst ?xs) = length [0..<?n]" using len by simp
    fix i
    assume "i < length (map fst ?xs)"
    then have "i < ?n" using len by simp
    then show "map fst ?xs ! i = [0..<?n] ! i"
      using slot [of i] len by auto
  qed
  have rel: "list_all2 (\<lambda>r i. ?E i = map_option ?k (snd r)) ?xs [0..<?n]"
  proof (rule list_all2_all_nthI)
    show "length ?xs = length [0..<?n]" using len by simp
    fix i
    assume "i < length ?xs"
    then have i: "i < ?n" using len by simp
    then have idx: "[0..<?n] ! i = i" by simp
    obtain c where "settled ?st ! i = Some (i, c)" "?E i = map_option ?k c"
      using slot [OF i] by blast
    then show "?E ([0..<?n] ! i) = map_option ?k (snd (?xs ! i))"
      unfolding idx using len i by simp
  qed
  have "map ?k chunks = map (\<lambda>r. ?k (the (snd r))) (filter (\<lambda>res. snd res \<noteq> None) ?xs)"
    unfolding chunks sort_results [OF fsts] by (simp add: o_def)
  also have "\<dots> = List.map_filter ?E [0..<?n]"
    using rel by (rule chunks_of_results)
  finally show ?thesis by (simp add: expected_chunks_def)
qed

lemma generateSpeech_returns:
  assumes "set order = {0..<length (scriptSegments options)}"
    and "getGenAI api_key = Inr ()"
    and "\<not> (speakerMode options = Multi \<and> validSpeakerConfigs options = [])"
    and "\<forall>i < length (scriptSegments options). \<not> isl (synthesize (respond i))"
  shows "\<exists>chunks. outcome (generateSpeech api_key uuid options respond order) = Inr chunks"
proof -
  let ?segs = "scriptSegments options"
  let ?n = "length ?segs"
  let ?init = "\<lparr>processedCount = 0,
      progress_calls = (if onProgress options then [(0, ?n)] else []),
      uuids_drawn = 0, settled = replicate ?n None, rejection = None\<rparr>"
  have sub: "set order \<subseteq> {0..<?n}" using assms(1) by simp
  have "\<forall>i \<in> set order. \<not> isl (synthesize (respond i))"
    using assms(1,4) by simp
  from fold_complete_clean [OF trim_scriptSegments sub _ _ this, where st = ?init and cb = "onProgress options" and n = ?n and uuid = uuid]
  have "rejection (fold (\<lambda>i. complete_segment (onProgress options) ?n uuid (?segs ! i)
      (respond i) i) order ?init) = None"
    by simp
  then show ?thesis
    unfolding generateSpeech_run [OF assms(2,3)] Let_def by simp
qed


lemma sequential_loop_fails:
  assumes "\<forall>(i, s) \<in> set items. trim s \<noteq> []"
    and "\<exists>(i, s) \<in> set items. isl (synthesize (respond i))"
  shows "\<exists>j e. j \<in> fst ` set items \<and> synthesize (respond j) = Inl e \<and>
    outcome (sequential_loop cb n uuid respond items chunks calls) = Inl e"
  using assms
proof (induction items arbitrary: chunks calls)
  case Nil
  then show ?case by simp
next
  case (Cons item items)
  obtain i s where item: "item = (i, s)" by (cases item)
  have tr: "trim s \<noteq> []" using Cons.prems(1) item by simp
  show ?case
  proof (cases "synthesize (respond i)")
    case (Inl e)
    then show ?thesis using tr item by force
  next
    case (Inr v)
    then have rest: "\<exists>(i, s) \<in> set items. isl (synthesize (respond i))"
      using Cons.prems(2) item by auto
    have all: "\<forall>(i, s) \<in> set items. trim s \<noteq> []" using Cons.prems(1) by simp
    show ?thesis
    proof (cases v)
      case None
      then show ?thesis
        using Cons.IH [OF all rest, of chunks calls] Inr tr item by auto
    next
      case (Some buffer)
      let ?chunks = "chunks @ [\<lparr>chunk_id = uuid (length chunks), chunk_text = trim s,
          audioBuffer = buffer\<rparr>]"
      show ?thesis
        using Cons.IH [OF all rest, of ?chunks
            "calls @ (if cb then [(length ?chunks, n)] else [])"] Inr Some tr item
        by (auto simp: Let_def)
    qed
  qed
qed

text \<open>
  Claim C1. Whatever the order in which the segment tasks finish, the chunks
  \<^verbatim>\<open>generateSpeech\<close> returns are those of the segments that yielded audio, in the order of
  their positions in the script; and it does return them when the key is set, the speaker
  configuration is valid and no segment fails.
\<close>

theorem generateSpeech_original_order:
  assumes "distinct order" and "set order = {0..<length (scriptSegments options)}"
  shows "(\<forall>chunks. outcome (generateSpeech api_key uuid options respond order) = Inr chunks \<longrightarrow>
            map (\<lambda>c. (chunk_text c, audioBuffer c)) chunks = expected_chunks options respond)
     \<and> (getGenAI api_key = Inr () \<and>
          \<not> (speakerMode options = Multi \<and> validSpeakerConfigs options = []) \<and>
          (\<forall>i < length (scriptSegments options). \<not> isl (synthesize (respond i))) \<longrightarrow>
          (\<exists>chunks. outcome (generateSpeech api_key uuid options respond order) = Inr chunks))"
  using generateSpeech_in_order [OF assms] generateSpeech_returns [OF assms(2)] by blast

text \<open>
  Claim C2. If the synthesis of any one segment fails, the batch fails with the error of a
  failed segment and returns no chunk list, in the concurrent variant (for every finishing
  order) and in the sequential one.
\<close>

theorem generateSpeech_fail_fast:
  assumes "distinct order" and "set order = {0..<length (scriptSegments options)}"
    and "getGenAI api_key = Inr ()"
    and "\<not> (speakerMode options = Multi \<and> validSpeakerConfigs options = [])"
    and "i < length (scriptSegments options)" and "isl (synthesize (respond i))"
  shows "(\<exists>j e. j < length (scriptSegments options) \<and> synthesize (respond j) = Inl e \<and>
            outcome (generateSpeech api_key uuid options respond order) = Inl e)
     \<and> (\<exists>j e. j < length (scriptSegments options) \<and> synthesize (respond j) = Inl e \<and>
            outcome (generateSpeech_sequential api_key uuid options respond) = Inl e)"
proof
  let ?segs = "scriptSegments options"
  let ?n = "length ?segs"
  let ?init = "\<lparr>processedCount = 0,
      progress_calls = (if onProgress options then [(0, ?n)] else []),
      uuids_drawn = 0, settled = replicate ?n None, rejection = None\<rparr>"
  let ?st = "fold (\<lambda>i. complete_segment (onProgress options) ?n uuid (?segs ! i) (respond i) i)
      order ?init"
  have sub: "set order \<subseteq> {0..<?n}" using assms(2) by simp
  have "\<exists>i \<in> set order. isl (synthesize (respond i))"
    using assms(2,5,6) by auto
  then have "\<exists>j e. j \<in> set order \<and> synthesize (respond j) = Inl e \<and> rejection ?st = Some e"
    using trim_scriptSegments sub by (intro fold_complete_rejected) simp_all
  then obtain j e where "j \<in> set order" "synthesize (respond j) = Inl e" "rejection ?st = Some e"
    by blast
  then show "\<exists>j e. j < ?n \<and> synthesize (respond j) = Inl e \<and>
      outcome (generateSpeech api_key uuid options respond order) = Inl e"
    unfolding generateSpeech_run [OF assms(3,4)] Let_def using assms(2) by auto
next
  let ?segs = "scriptSegments options"
  let ?n = "length ?segs"
  let ?items = "zip [0..<?n] ?segs"
  have fsts: "fst ` set ?items = {0..<?n}"
    by (metis atLeastLessThan_upt length_upt map_fst_zip minus_nat.diff_0 set_map)
  have "\<forall>(i, s) \<in> set ?items. trim s \<noteq> []"
    using trim_scriptSegments [of options] by (auto dest: set_zip_rightD)
  moreover have "(i, ?segs ! i) \<in> set ?items"
    using assms(5) by (auto simp: set_zip intro!: exI [of _ i])
  then have "\<exists>(i, s) \<in> set ?items. isl (synthesize (respond i))"
    using assms(6) by blast
  ultimately have "\<exists>j e. j \<in> fst ` set ?items \<and> synthesize (respond j) = Inl e \<and>
      outcome (sequential_loop (onProgress options) ?n uuid respond ?items []
        (if onProgress options then [(0, ?n)] else [])) = Inl e"
    by (rule sequential_loop_fails)
  then show "\<exists>j e. j < ?n \<and> synthesize (respond j) = Inl e \<and>
      outcome (generateSpeech_sequential api_key uuid options respond) = Inl e"
    unfolding fsts using assms(3,4) by (auto simp: generateSpeech_sequential_def Let_def)
qed

text \<open>
  Claim C6, amended. The claim counts \<open>N\<close> invocations of the progress callback for \<open>N\<close>
  segments. \<^verbatim>\<open>generateSpeech\<close> reports the initial progress \<open>(0, N)\<close> before any request
  (``Report initial progress''), so with a callback supplied, the key set and a valid
  speaker configuration it invokes the callback \<open>N + 1\<close> times: with first arguments
  \<open>0, 1, \<dots>, N\<close> in this order, the last one, \<open>N\<close>, when the last segment has resolved.
\<close>

theorem generateSpeech_progress:
  assumes "distinct order" and "set order = {0..<length (scriptSegments options)}"
    and "getGenAI api_key = Inr ()"
    and "\<not> (speakerMode options = Multi \<and> validSpeakerConfigs options = [])"
    and "onProgress options"
  shows "progress (generateSpeech api_key uuid options respond order)
    = map (\<lambda>k. (k, length (scriptSegments options))) [0..<Suc (length (scriptSegments options))]"
proof -
  let ?n = "length (scriptSegments options)"
  have "length order = card (set order)"
    using assms(1) by (simp add: distinct_card)
  then have len: "length order = ?n" using assms(2) by simp
  have "map (\<lambda>k. (k, ?n)) [0..<Suc ?n] = (0, ?n) # map (\<lambda>k. (k, ?n)) [Suc 0..<Suc ?n]"
    by (simp add: upt_conv_Cons del: upt_Suc)
  then show ?thesis
    unfolding generateSpeech_run [OF assms(3,4)] Let_def
    using assms(5) len by (simp add: fold_complete_count(2) del: upt_Suc)
qed


lemma example_decode: "decode (js ''AAA='') = Inr [0, 0]"
  by (simp add: decode_def atob_def strip_padding_def is_ascii_whitespace_def base64_value_def
      base64_index_def Let_def js_def)

lemma example_audio:
  "synthesize (Responded (Some (js ''AAA=''))) = Inr (Some \<lparr>sampleRate = 24000, numberOfChannels = 1, length_buf = 1, channelData = [[0]]\<rparr>)"
proof -
  have "js ''AAA='' \<noteq> []" by (simp add: js_def)
  then show ?thesis
    by (simp add: synthesize_def example_decode decodeAudioData_def Int16Array_of_buffer_def
        createBuffer_def DEFAULT_SAMPLE_RATE_def)
qed

lemma example_none: "synthesize (Responded None) = Inr None"
  by (simp add: synthesize_def)

lemma example_rejected: "synthesize (Rejected e) = Inl e"
  by (simp add: synthesize_def)

lemma example_key: "getGenAI (Some (js ''key'')) = Inr ()"
  by (simp add: getGenAI_def trim_def is_js_whitespace_def js_def)

lemma example_trim:
  "trim (js ''One'') = js ''One''" "trim (js ''Two'') = js ''Two''"
  "trim (js ''Three'') = js ''Three''" "trim (js ''Four'') = js ''Four''"
  "trim (js ''Five'') = js ''Five''" "trim (js '' '') = []"
  by (simp_all add: trim_def is_js_whitespace_def js_def)

lemma js_nonempty:
  "js ''One'' \<noteq> []" "js ''Two'' \<noteq> []" "js ''Three'' \<noteq> []" "js ''Four'' \<noteq> []"
  "js ''Five'' \<noteq> []"
  by (simp_all add: js_def)

lemma example_segments:
  "scriptSegments \<lparr>pieces = [js ''One'', js '' '', js ''Two'', js ''Three'', js ''Four'', js ''Five''],
      speakerMode = Single, multiSpeakerConfigs = None, onProgress = True\<rparr>
   = [js ''One'', js ''Two'', js ''Three'', js ''Four'', js ''Five'']"
  by (simp add: scriptSegments_def example_trim js_nonempty)

lemma example_order: "distinct [2, 0, 1, 3, 4 :: nat]" "set [2, 0, 1, 3, 4] = {0..<5 :: nat}"
  by auto

text \<open>
  Five segments, the third finishing first and the fourth without audio: the texts come
  back in script order.
\<close>

theorem generateSpeech_original_order_witness:
  "\<exists>chunks.
     outcome (generateSpeech (Some (js ''key'')) (\<lambda>k. replicate k 48)
       \<lparr>pieces = [js ''One'', js '' '', js ''Two'', js ''Three'', js ''Four'', js ''Five''],
      speakerMode = Single, multiSpeakerConfigs = None, onProgress = True\<rparr>
       (\<lambda>i. if i = 3 then Responded None else Responded (Some (js ''AAA=''))) [2, 0, 1, 3, 4])
     = Inr chunks \<and>
     map chunk_text chunks = [js ''One'', js ''Two'', js ''Three'', js ''Five'']"
proof -
  let ?options = "\<lparr>pieces = [js ''One'', js '' '', js ''Two'', js ''Three'', js ''Four'', js ''Five''],
      speakerMode = Single, multiSpeakerConfigs = None, onProgress = True\<rparr>"
  let ?respond = "\<lambda>i :: nat. if i = 3 then Responded None else Responded (Some (js ''AAA=''))"
  let ?run = "generateSpeech (Some (js ''key'')) (\<lambda>k. replicate k 48) ?options ?respond
      [2, 0, 1, 3, 4]"
  have n: "length (scriptSegments ?options) = 5" by (simp add: example_segments)
  have order: "distinct [2, 0, 1, 3, 4 :: nat]"
    "set [2, 0, 1, 3, 4] = {0..<length (scriptSegments ?options)}"
    unfolding n by (rule example_order)+
  have fine: "\<forall>i < length (scriptSegments ?options). \<not> isl (synthesize (?respond i))"
    by (simp add: example_audio example_none)
  have valid: "\<not> (speakerMode ?options = Multi \<and> validSpeakerConfigs ?options = [])"
    by simp
  note inst = generateSpeech_original_order [OF order, of "Some (js ''key'')" "\<lambda>k. replicate k 48"
      ?respond]
  from inst example_key valid fine obtain chunks where chunks: "outcome ?run = Inr chunks"
    by blast
  with inst have "map (\<lambda>c. (chunk_text c, audioBuffer c)) chunks
      = expected_chunks ?options ?respond"
    by blast
  then have "map fst (map (\<lambda>c. (chunk_text c, audioBuffer c)) chunks)
      = map fst (expected_chunks ?options ?respond)"
    by simp
  moreover have "map fst (expected_chunks ?options ?respond)
      = [js ''One'', js ''Two'', js ''Three'', js ''Five'']"
    by (simp add: expected_chunks_def example_segments example_audio example_none example_trim
        map_filter_def upt_conv_Cons del: upt_Suc)
  ultimately have texts: "map chunk_text chunks = [js ''One'', js ''Two'', js ''Three'', js ''Five'']"
    by (simp add: o_def)
  from chunks texts show ?thesis by (intro exI [of _ chunks] conjI)
qed


text \<open>Five segments, the request of the third rejected with error 503.\<close>

theorem generateSpeech_fail_fast_witness:
  "outcome (generateSpeech (Some (js ''key'')) (\<lambda>k. replicate k 48)
       \<lparr>pieces = [js ''One'', js '' '', js ''Two'', js ''Three'', js ''Four'', js ''Five''],
      speakerMode = Single, multiSpeakerConfigs = None, onProgress = True\<rparr>
       (\<lambda>i. if i = 2 then Rejected (RemoteError 503) else Responded (Some (js ''AAA='')))
       [2, 0, 1, 3, 4])
     = Inl (RemoteError 503) \<and>
   outcome (generateSpeech_sequential (Some (js ''key'')) (\<lambda>k. replicate k 48)
       \<lparr>pieces = [js ''One'', js '' '', js ''Two'', js ''Three'', js ''Four'', js ''Five''],
      speakerMode = Single, multiSpeakerConfigs = None, onProgress = True\<rparr>
       (\<lambda>i. if i = 2 then Rejected (RemoteError 503) else Responded (Some (js ''AAA=''))))
     = Inl (RemoteError 503)"
proof -
  let ?options = "\<lparr>pieces = [js ''One'', js '' '', js ''Two'', js ''Three'', js ''Four'', js ''Five''],
      speakerMode = Single, multiSpeakerConfigs = None, onProgress = True\<rparr>"
  let ?respond = "\<lambda>i :: nat. if i = 2 then Rejected (RemoteError 503)
      else Responded (Some (js ''AAA=''))"
  have n: "length (scriptSegments ?options) = 5" by (simp add: example_segments)
  have order: "distinct [2, 0, 1, 3, 4 :: nat]"
    "set [2, 0, 1, 3, 4] = {0..<length (scriptSegments ?options)}"
    unfolding n by (rule example_order)+
  have valid: "\<not> (speakerMode ?options = Multi \<and> validSpeakerConfigs ?options = [])"
    by simp
  have i: "2 < length (scriptSegments ?options)" unfolding n by simp
  have fails: "isl (synthesize (?respond 2))" by (simp add: example_rejected)
  have only: "e = RemoteError 503" if "synthesize (?respond j) = Inl e" for j e
    using that by (cases "j = 2") (simp_all add: example_rejected example_audio)
  note inst = generateSpeech_fail_fast [where respond = ?respond and i = 2
      and uuid = "\<lambda>k. replicate k 48", OF order example_key valid i fails]
  from inst obtain j e where "synthesize (?respond j) = Inl e"
    "outcome (generateSpeech (Some (js ''key'')) (\<lambda>k. replicate k 48) ?options ?respond
       [2, 0, 1, 3, 4]) = Inl e"
    by blast
  then have conc: "outcome (generateSpeech (Some (js ''key'')) (\<lambda>k. replicate k 48) ?options
      ?respond [2, 0, 1, 3, 4]) = Inl (RemoteError 503)"
    using only by blast
  from inst obtain j e where "synthesize (?respond j) = Inl e"
    "outcome (generateSpeech_sequential (Some (js ''key'')) (\<lambda>k. replicate k 48) ?options
       ?respond) = Inl e"
    by blast
  then have "outcome (generateSpeech_sequential (Some (js ''key'')) (\<lambda>k. replicate k 48)
      ?options ?respond) = Inl (RemoteError 503)"
    using only by blast
  with conc show ?thesis by (rule conjI)
qed

text \<open>
  Claim C6 as stated fails already for one segment: the callback is invoked twice.
\<close>

theorem generateSpeech_progress_counterexample:
  "length (scriptSegments \<lparr>pieces = [js ''One''], speakerMode = Single,
       multiSpeakerConfigs = None, onProgress = True\<rparr>) = 1 \<and>
   progress (generateSpeech (Some (js ''key'')) (\<lambda>k. replicate k 48)
       \<lparr>pieces = [js ''One''], speakerMode = Single, multiSpeakerConfigs = None,
        onProgress = True\<rparr>
       (\<lambda>i. Responded None) [0]) = [(0, 1), (1, 1)]"
proof -
  have segs: "scriptSegments \<lparr>pieces = [js ''One''], speakerMode = Single,
       multiSpeakerConfigs = None, onProgress = True\<rparr> = [js ''One'']"
    by (simp add: scriptSegments_def example_trim js_nonempty)
  show ?thesis
    by (simp add: generateSpeech_def example_key segs Let_def complete_segment_def
        example_trim js_nonempty example_none count_and_report_def resolve_def)
qed

text \<open>Five segments, one of them failing: six invocations.\<close>

theorem generateSpeech_progress_witness:
  "progress (generateSpeech (Some (js ''key'')) (\<lambda>k. replicate k 48)
       \<lparr>pieces = [js ''One'', js '' '', js ''Two'', js ''Three'', js ''Four'', js ''Five''],
      speakerMode = Single, multiSpeakerConfigs = None, onProgress = True\<rparr>
       (\<lambda>i. if i = 2 then Rejected (RemoteError 503) else Responded (Some (js ''AAA='')))
       [2, 0, 1, 3, 4])
     = [(0, 5), (1, 5), (2, 5), (3, 5), (4, 5), (5, 5)]"
proof -
  let ?options = "\<lparr>pieces = [js ''One'', js '' '', js ''Two'', js ''Three'', js ''Four'', js ''Five''],
      speakerMode = Single, multiSpeakerConfigs = None, onProgress = True\<rparr>"
  have n: "length (scriptSegments ?options) = 5" by (simp add: example_segments)
  have order: "distinct [2, 0, 1, 3, 4 :: nat]"
    "set [2, 0, 1, 3, 4] = {0..<length (scriptSegments ?options)}"
    unfolding n by (rule example_order)+
  have valid: "\<not> (speakerMode ?options = Multi \<and> validSpeakerConfigs ?options = [])"
    by simp
  have cb: "onProgress ?options" by simp
  show ?thesis
    unfolding generateSpeech_progress [OF order example_key valid cb] n
    by (simp add: upt_conv_Cons del: upt_Suc)
qed

section \<open>Live session manager\<close>

lemma stop_releases:
  "mediaStream (stop m) = None" "scriptProcessorNode (stop m) = None"
  "sessionPromise (stop m) = None"
  by (simp_all add: stop_def resetTranscription_def emit_def Let_def split: option.splits)

lemma stop_effects:
  "mediaStream m = Some s \<Longrightarrow> TracksStopped s \<in> set (effects (stop m))"
  "scriptProcessorNode m = Some n \<Longrightarrow> NodeDisconnected n \<in> set (effects (stop m))"
  by (simp_all add: stop_def resetTranscription_def emit_def Let_def split: option.splits)

text \<open>
  Claim C7. In every manager state, a message with the turn-complete flag seals the two
  accumulators (as they stand after the message's own transcription parts, if it has any)
  into at most two turn records: one per non-empty side, the user's before the model's.
  The records are appended to the turn history, the updated history is passed to
  \<^verbatim>\<open>onCompleteTurn\<close>, and both accumulators are empty afterwards.
\<close>

theorem turn_complete_seals:
  fixes m :: live_manager and cbs :: callbacks and msg :: live_server_message
  defines "m1 \<equiv> handle_transcriptions cbs msg m"
  assumes "turnComplete msg" and "inlineAudio msg = None"
  shows "\<exists>sealed.
     map (\<lambda>t. (speaker t, turn_text t)) sealed
       = (if currentInputTranscription m1 \<noteq> [] then [(User, currentInputTranscription m1)]
          else [])
         @ (if currentOutputTranscription m1 \<noteq> [] then [(Model, currentOutputTranscription m1)]
            else []) \<and>
     onmessage cbs uuid msg m
       = (onCompleteTurn cbs (accumulatedTurns m1 @ sealed)
            (m1\<lparr>accumulatedTurns := accumulatedTurns m1 @ sealed,
                uuids_taken := uuids_taken m1 + length sealed,
                effects := effects m1 @ [CompleteTurn (accumulatedTurns m1 @ sealed)]\<rparr>))
           \<lparr>currentInputTranscription := [], currentOutputTranscription := []\<rparr> \<and>
     currentInputTranscription (onmessage cbs uuid msg m) = [] \<and>
     currentOutputTranscription (onmessage cbs uuid msg m) = [] \<and>
     (outputTranscription msg = None \<and> inputTranscription msg = None \<longrightarrow> m1 = m)"
proof -
  let ?sealed = "(if currentInputTranscription m1 \<noteq> []
        then [\<lparr>turn_id = uuid (uuids_taken m1), speaker = User,
               turn_text = currentInputTranscription m1\<rparr>] else [])
      @ (if currentOutputTranscription m1 \<noteq> []
         then [\<lparr>turn_id = uuid (uuids_taken m1
                   + (if currentInputTranscription m1 \<noteq> [] then 1 else 0)),
                speaker = Model, turn_text = currentOutputTranscription m1\<rparr>] else [])"
  have same: "outputTranscription msg = None \<and> inputTranscription msg = None \<longrightarrow> m1 = m"
    by (simp add: m1_def handle_transcriptions_def)
  have run: "onmessage cbs uuid msg m
       = (onCompleteTurn cbs (accumulatedTurns m1 @ ?sealed)
            (m1\<lparr>accumulatedTurns := accumulatedTurns m1 @ ?sealed,
                uuids_taken := uuids_taken m1 + length ?sealed,
                effects := effects m1 @ [CompleteTurn (accumulatedTurns m1 @ ?sealed)]\<rparr>))
           \<lparr>currentInputTranscription := [], currentOutputTranscription := []\<rparr>"
    using assms(2,3)
    by (simp add: onmessage_def handle_audio_def handle_turn_complete_def push_turn_def emit_def
        Let_def m1_def)
  have "currentInputTranscription (onmessage cbs uuid msg m) = []"
    "currentOutputTranscription (onmessage cbs uuid msg m) = []"
    unfolding run by simp_all
  moreover have "map (\<lambda>t. (speaker t, turn_text t)) ?sealed
       = (if currentInputTranscription m1 \<noteq> [] then [(User, currentInputTranscription m1)]
          else [])
         @ (if currentOutputTranscription m1 \<noteq> [] then [(Model, currentOutputTranscription m1)]
            else [])"
    by simp
  ultimately show ?thesis using run same by (intro exI [of _ ?sealed] conjI)
qed

text \<open>
  When the audio payload of a message does not decode, \<^verbatim>\<open>onmessage\<close> invokes the error
  callback with the decode error and does nothing after it: whatever is released is
  released by the callback. The panel's \<^verbatim>\<open>handleLiveError\<close> calls \<^verbatim>\<open>stop()\<close> itself, so with
  it the microphone tracks and the processing node are released.
\<close>

lemma onmessage_decode_failure:
  fixes m :: live_manager and cbs :: callbacks and msg :: live_server_message
    and uuid :: "nat \<Rightarrow> jsstring"
  defines "pre \<equiv> handle_turn_complete cbs uuid msg (handle_transcriptions cbs msg m)"
  assumes "inlineAudio msg = Some base64" and "base64 \<noteq> []"
    and "decode_payload base64 = Inl e"
  shows "onmessage cbs uuid msg m = onError cbs e (pre\<lparr>effects := effects pre @ [ErrorReported e]\<rparr>)
     \<and> (onError cbs = handleLiveError \<longrightarrow>
          mediaStream (onmessage cbs uuid msg m) = None \<and>
          scriptProcessorNode (onmessage cbs uuid msg m) = None \<and>
          sessionPromise (onmessage cbs uuid msg m) = None \<and>
          (\<forall>s. mediaStream pre = Some s \<longrightarrow>
             TracksStopped s \<in> set (effects (onmessage cbs uuid msg m))) \<and>
          (\<forall>n. scriptProcessorNode pre = Some n \<longrightarrow>
             NodeDisconnected n \<in> set (effects (onmessage cbs uuid msg m))))"
proof -
  have run: "onmessage cbs uuid msg m
      = onError cbs e (pre\<lparr>effects := effects pre @ [ErrorReported e]\<rparr>)"
    using assms(2-4) by (simp add: onmessage_def handle_audio_def emit_def pre_def)
  have "mediaStream (handleLiveError e x) = None" "scriptProcessorNode (handleLiveError e x) = None"
    "sessionPromise (handleLiveError e x) = None" for x
    by (simp_all add: handleLiveError_def stop_releases)
  moreover have "TracksStopped s \<in> set (effects (handleLiveError e x))"
    if "mediaStream x = Some s" for s x
    unfolding handleLiveError_def using that by (intro stop_effects) (simp add: emit_def)
  moreover have "NodeDisconnected n \<in> set (effects (handleLiveError e x))"
    if "scriptProcessorNode x = Some n" for n x
    unfolding handleLiveError_def using that by (intro stop_effects) (simp add: emit_def)
  ultimately show ?thesis unfolding run by simp
qed


lemma js_texts: "js ''hi'' \<noteq> []" "js ''yo'' \<noteq> []" "js ''!'' \<noteq> []"
  by (simp_all add: js_def)

lemma bad_payload: "decode_payload (js ''!'') = Inl InvalidCharacterError"
  by (simp add: decode_payload_def decode_def atob_def strip_padding_def is_ascii_whitespace_def
      base64_value_def base64_index_def Let_def js_def)

text \<open>
  With input and output text the history gains a user and a model record, in this order;
  with output text only it gains one model record.
\<close>

theorem turn_complete_seals_witness:
  "map (\<lambda>t. (speaker t, turn_text t))
     (accumulatedTurns (onmessage quiet (\<lambda>k. replicate k 48)
       \<lparr>outputTranscription = None, inputTranscription = None, turnComplete = True,
        inlineAudio = None\<rparr>
       \<lparr>sessionPromise = Some 7, mediaStream = Some 1, scriptProcessorNode = Some 2,
        currentInputTranscription = js ''hi'', currentOutputTranscription = js ''yo'',
        accumulatedTurns = [], uuids_taken = 0, effects = []\<rparr>))
     = [(User, js ''hi''), (Model, js ''yo'')] \<and>
   map (\<lambda>t. (speaker t, turn_text t))
     (accumulatedTurns (onmessage quiet (\<lambda>k. replicate k 48)
       \<lparr>outputTranscription = None, inputTranscription = None, turnComplete = True,
        inlineAudio = None\<rparr>
       \<lparr>sessionPromise = Some 7, mediaStream = Some 1, scriptProcessorNode = Some 2,
        currentInputTranscription = [], currentOutputTranscription = js ''yo'',
        accumulatedTurns = [], uuids_taken = 0, effects = []\<rparr>))
     = [(Model, js ''yo'')] \<and>
   currentOutputTranscription (onmessage quiet (\<lambda>k. replicate k 48)
       \<lparr>outputTranscription = None, inputTranscription = None, turnComplete = True,
        inlineAudio = None\<rparr>
       \<lparr>sessionPromise = Some 7, mediaStream = Some 1, scriptProcessorNode = Some 2,
        currentInputTranscription = [], currentOutputTranscription = js ''yo'',
        accumulatedTurns = [], uuids_taken = 0, effects = []\<rparr>) = []"
proof -
  let ?msg = "\<lparr>outputTranscription = None, inputTranscription = None, turnComplete = True,
        inlineAudio = None\<rparr>"
  let ?both = "\<lparr>sessionPromise = Some 7, mediaStream = Some 1, scriptProcessorNode = Some 2,
        currentInputTranscription = js ''hi'', currentOutputTranscription = js ''yo'',
        accumulatedTurns = [], uuids_taken = 0, effects = []\<rparr>"
  let ?only = "\<lparr>sessionPromise = Some 7, mediaStream = Some 1, scriptProcessorNode = Some 2,
        currentInputTranscription = [], currentOutputTranscription = js ''yo'',
        accumulatedTurns = [], uuids_taken = 0, effects = []\<rparr>"
  have msg: "turnComplete ?msg" "inlineAudio ?msg = None" by simp_all
  have pure: "handle_transcriptions quiet ?msg x = x" for x
    by (simp add: handle_transcriptions_def)
  have both: "map (\<lambda>t. (speaker t, turn_text t))
      (accumulatedTurns (onmessage quiet (\<lambda>k. replicate k 48) ?msg ?both))
      = [(User, js ''hi''), (Model, js ''yo'')]"
  proof -
    from turn_complete_seals [OF msg, of quiet ?both "\<lambda>k. replicate k 48"]
    obtain sealed where
      sealed: "map (\<lambda>t. (speaker t, turn_text t)) sealed
        = (if currentInputTranscription ?both \<noteq> []
           then [(User, currentInputTranscription ?both)] else [])
          @ (if currentOutputTranscription ?both \<noteq> []
             then [(Model, currentOutputTranscription ?both)] else [])"
      and run: "onmessage quiet (\<lambda>k. replicate k 48) ?msg ?both
        = (onCompleteTurn quiet (accumulatedTurns ?both @ sealed)
            (?both\<lparr>accumulatedTurns := accumulatedTurns ?both @ sealed,
                uuids_taken := uuids_taken ?both + length sealed,
                effects := effects ?both @ [CompleteTurn (accumulatedTurns ?both @ sealed)]\<rparr>))
           \<lparr>currentInputTranscription := [], currentOutputTranscription := []\<rparr>"
      unfolding pure by (elim exE conjE)
    have "accumulatedTurns (onmessage quiet (\<lambda>k. replicate k 48) ?msg ?both) = sealed"
      unfolding run by (simp add: quiet_def)
    then show ?thesis using sealed by (simp add: js_texts)
  qed
  have only: "map (\<lambda>t. (speaker t, turn_text t))
      (accumulatedTurns (onmessage quiet (\<lambda>k. replicate k 48) ?msg ?only))
      = [(Model, js ''yo'')]"
    and reset: "currentOutputTranscription (onmessage quiet (\<lambda>k. replicate k 48) ?msg ?only)
      = []"
  proof -
    from turn_complete_seals [OF msg, of quiet ?only "\<lambda>k. replicate k 48"]
    obtain sealed where
      sealed: "map (\<lambda>t. (speaker t, turn_text t)) sealed
        = (if currentInputTranscription ?only \<noteq> []
           then [(User, currentInputTranscription ?only)] else [])
          @ (if currentOutputTranscription ?only \<noteq> []
             then [(Model, currentOutputTranscription ?only)] else [])"
      and run: "onmessage quiet (\<lambda>k. replicate k 48) ?msg ?only
        = (onCompleteTurn quiet (accumulatedTurns ?only @ sealed)
            (?only\<lparr>accumulatedTurns := accumulatedTurns ?only @ sealed,
                uuids_taken := uuids_taken ?only + length sealed,
                effects := effects ?only @ [CompleteTurn (accumulatedTurns ?only @ sealed)]\<rparr>))
           \<lparr>currentInputTranscription := [], currentOutputTranscription := []\<rparr>"
      and out: "currentOutputTranscription (onmessage quiet (\<lambda>k. replicate k 48) ?msg ?only)
        = []"
      unfolding pure by (elim exE conjE)
    have "accumulatedTurns (onmessage quiet (\<lambda>k. replicate k 48) ?msg ?only) = sealed"
      unfolding run by (simp add: quiet_def)
    then show "map (\<lambda>t. (speaker t, turn_text t))
        (accumulatedTurns (onmessage quiet (\<lambda>k. replicate k 48) ?msg ?only))
        = [(Model, js ''yo'')]"
      using sealed by (simp add: js_texts)
    show "currentOutputTranscription (onmessage quiet (\<lambda>k. replicate k 48) ?msg ?only) = []"
      by (rule out)
  qed
  from both only reset show ?thesis by (intro conjI)
qed

text \<open>
  The same message and state with the panel's \<^verbatim>\<open>handleLiveError\<close> as error callback:
  everything is released, by the callback.
\<close>

lemma onmessage_decode_failure_handleLiveError:
  "onmessage (quiet\<lparr>onError := handleLiveError\<rparr>) (\<lambda>k. replicate k 48)
       \<lparr>outputTranscription = None, inputTranscription = None, turnComplete = False,
        inlineAudio = Some (js ''!'')\<rparr>
       \<lparr>sessionPromise = Some 7, mediaStream = Some 1, scriptProcessorNode = Some 2,
        currentInputTranscription = js ''hi'', currentOutputTranscription = js ''yo'',
        accumulatedTurns = [], uuids_taken = 0, effects = []\<rparr>
     = \<lparr>sessionPromise = None, mediaStream = None, scriptProcessorNode = None,
        currentInputTranscription = [], currentOutputTranscription = [],
        accumulatedTurns = [], uuids_taken = 0,
        effects = [ErrorReported InvalidCharacterError, SetLiveError InvalidCharacterError,
          SetIsLiveActive False, SetIsConnecting False, TracksStopped 1, NodeDisconnected 2,
          SessionCloseRequested 7]\<rparr>"
proof -
  let ?msg = "\<lparr>outputTranscription = None, inputTranscription = None, turnComplete = False,
        inlineAudio = Some (js ''!'')\<rparr>"
  have msg: "inlineAudio ?msg = Some (js ''!'')" by simp
  show ?thesis
    using onmessage_decode_failure [OF msg js_texts(3) bad_payload,
      of "quiet\<lparr>onError := handleLiveError\<rparr>" "\<lambda>k. replicate k 48"
        "\<lparr>sessionPromise = Some 7, mediaStream = Some 1, scriptProcessorNode = Some 2,
        currentInputTranscription = js ''hi'', currentOutputTranscription = js ''yo'',
        accumulatedTurns = [], uuids_taken = 0, effects = []\<rparr>"]
    by (simp add: handle_turn_complete_def handle_transcriptions_def handleLiveError_def stop_def
        resetTranscription_def emit_def quiet_def Let_def)
qed

end
